theory Spec2Isabelle
  imports Complex_Main
begin

section \<open>The latency plot script \<^verbatim>\<open>scripts/plot_latency.py\<close>\<close>

text \<open>
  The script is a straight line of library calls: two \<^verbatim>\<open>pd.read_csv\<close> inside a
  \<^verbatim>\<open>try\<close> whose only handler is \<^verbatim>\<open>except FileNotFoundError\<close>, then
  \<^verbatim>\<open>MinMaxScaler().fit\<close> on the concatenation, two \<^verbatim>\<open>scaler.transform\<close>,
  \<^verbatim>\<open>np.linspace(min_limit, max_limit, 100)\<close>, two \<^verbatim>\<open>plt.hist\<close> and
  \<^verbatim>\<open>plt.show\<close>. Each library call is embedded as the function it computes on the
  values this script hands it; an exception is a value of type \<open>exn\<close> and every
  call that can raise returns a sum.
\<close>

subsection \<open>float64 arithmetic\<close>

text \<open>
  A finite float64 value is the rational number it denotes; the sign of zero is not kept.
  An arithmetic operation of numpy on finite float64 values is the exact operation followed
  by rounding to the nearest float64, ties to even (\<open>fl64\<close>): to 53 significant bits
  when the magnitude is at least \<open>2\<^sup>-\<^sup>1\<^sup>0\<^sup>2\<^sup>2\<close>, and to a multiple of
  \<open>2\<^sup>-\<^sup>1\<^sup>0\<^sup>7\<^sup>4\<close> below it (gradual underflow: a small enough result rounds to
  zero). The largest float64 is below \<open>2\<^sup>1\<^sup>0\<^sup>2\<^sup>4\<close>: when the rounded result
  reaches \<open>2\<^sup>1\<^sup>0\<^sup>2\<^sup>4\<close> the operation overflows and numpy gives an infinity
  (\<open>overflows\<close>). The infinities and NaN are not values of this embedding: each
  operation of the script whose result can overflow is written with its test, and says
  what the libraries do with the infinity.
\<close>

function ilog2 :: "rat \<Rightarrow> int" where
  "ilog2 x = (if x \<le> 0 then 0
              else if 2 \<le> x then ilog2 (x / 2) + 1
              else if x < 1 then ilog2 (x * 2) - 1
              else 0)"
  by pat_completeness auto
termination
proof (relation "measure (\<lambda>x. if 1 \<le> x then nat \<lfloor>x\<rfloor> else nat \<lceil>1 / x\<rceil>)")
  show "wf (measure (\<lambda>x::rat. if 1 \<le> x then nat \<lfloor>x\<rfloor> else nat \<lceil>1 / x\<rceil>))"
    by simp
next
  fix x :: rat
  assume a: "\<not> x \<le> 0" "2 \<le> x"
  have "\<lfloor>x / 2\<rfloor> < \<lfloor>x\<rfloor>" using a by linarith
  moreover have "0 < \<lfloor>x\<rfloor>" using a by linarith
  ultimately show "(x / 2, x) \<in> measure (\<lambda>x. if 1 \<le> x then nat \<lfloor>x\<rfloor> else nat \<lceil>1 / x\<rceil>)"
    using a by auto
next
  fix x :: rat
  assume a: "\<not> x \<le> 0" "\<not> 2 \<le> x" "x < 1"
  have x: "0 < x" using a by simp
  have big: "1 < 1 / x" using a x by simp
  show "(x * 2, x) \<in> measure (\<lambda>x. if 1 \<le> x then nat \<lfloor>x\<rfloor> else nat \<lceil>1 / x\<rceil>)"
  proof (cases "1 \<le> x * 2")
    case True
    have "\<lfloor>x * 2\<rfloor> = 1" using True a by linarith
    moreover have "2 \<le> \<lceil>1 / x\<rceil>" using big by linarith
    ultimately show ?thesis using True a by auto
  next
    case False
    define r where "r = 1 / x"
    have "2 < r" using False x by (simp add: r_def field_simps)
    then have "r / 2 \<le> r - 1" by simp
    also have "\<dots> \<le> of_int \<lceil>r\<rceil> - 1" by linarith
    finally have "\<lceil>r / 2\<rceil> < \<lceil>r\<rceil>" by (simp add: ceiling_less_iff)
    moreover have "0 < \<lceil>r\<rceil>" using \<open>2 < r\<close> by linarith
    ultimately have "nat \<lceil>r / 2\<rceil> < nat \<lceil>r\<rceil>" by linarith
    moreover have "1 / (x * 2) = r / 2" by (simp add: r_def)
    moreover have "\<not> 1 \<le> x" using a by simp
    ultimately show ?thesis using False unfolding in_measure r_def by presburger
  qed
qed

declare ilog2.simps [simp del]

definition round_half_even :: "rat \<Rightarrow> int" where
  "round_half_even m =
     (let f = \<lfloor>m\<rfloor>; d = m - of_int f
      in if d < 1 / 2 then f
         else if 1 / 2 < d then f + 1
         else if even f then f else f + 1)"

definition fl64 :: "rat \<Rightarrow> rat" where
  "fl64 x = (if x = 0 then 0
             else let e = max (ilog2 \<bar>x\<bar>) (- 1022);
                      q = 2 powi (e - 52)
                  in sgn x * (of_int (round_half_even (\<bar>x\<bar> / q)) * q))"

definition overflows :: "rat \<Rightarrow> bool" where
  "overflows x \<longleftrightarrow> 2 ^ 1024 \<le> \<bar>fl64 x\<bar>"

text \<open>
  The values that rounding leaves alone. A float64 value is such a value of magnitude
  below \<open>2\<^sup>1\<^sup>0\<^sup>2\<^sup>4\<close>.
\<close>

definition is_f64 :: "rat \<Rightarrow> bool" where
  "is_f64 x \<longleftrightarrow> fl64 x = x"

text \<open>\<^verbatim>\<open>np.finfo(np.float64).eps\<close>\<close>

definition eps :: rat where
  "eps = 1 / 2 ^ 52"

text \<open>\<^verbatim>\<open>np.finfo(np.float64).smallest_subnormal\<close>\<close>

definition smallest_subnormal :: rat where
  "smallest_subnormal = 2 powi (- 1074)"

subsection \<open>Files, tables and exceptions\<close>

text \<open>
  \<^verbatim>\<open>pd.read_csv(path, header=None, names=['lat'])\<close> gives a table of one column.
  The column is numeric (\<open>Numeric\<close>) when every row parsed as a number: its values are
  then finite float64 values, or int64 values, which float64 need not hold exactly. It
  is \<open>Nonfinite\<close> when every row parsed as a number and some value is an infinity. It
  has dtype object (\<open>Object\<close>) when some row did not parse as a number: every cell is
  then a text, given here by what Python's \<^verbatim>\<open>float()\<close> makes of it, the finite
  number it reads (as it does for \<^verbatim>\<open>1_000\<close>) or \<open>None\<close> when \<^verbatim>\<open>float()\<close>
  raises or reads an infinity. A column with missing values (NaN) is not represented.
  The parser itself is not embedded: the file system says, for each path, what
  \<^verbatim>\<open>read_csv\<close> finds there.
\<close>

datatype column =
    Numeric "rat list"
  | Nonfinite
  | Object "rat option list"

datatype exn =
    FileNotFoundError string
  | ReadError string
  | ValueError
  | TypeError

datatype file_state =
    Absent
  | Unreadable string
  | Contents column

definition read_csv :: "(string \<Rightarrow> file_state) \<Rightarrow> string \<Rightarrow> exn + column" where
  "read_csv fs path =
     (case fs path of
        Absent \<Rightarrow> Inl (FileNotFoundError path)
      | Unreadable kind \<Rightarrow> Inl (ReadError kind)
      | Contents c \<Rightarrow> Inr c)"

definition mutex_csv :: string where
  "mutex_csv = ''../csvs/mutex_ns.csv''"

definition sem_csv :: string where
  "sem_csv = ''../csvs/sem_ns.csv''"

subsection \<open>\<^verbatim>\<open>sklearn.preprocessing.MinMaxScaler\<close>, feature range (0, 1), no clipping\<close>

text \<open>
  The fitted attributes \<^verbatim>\<open>data_min_\<close>, \<^verbatim>\<open>data_max_\<close>, \<^verbatim>\<open>data_range_\<close>,
  \<^verbatim>\<open>scale_\<close> and \<^verbatim>\<open>min_\<close>, written here with a prime for the underscore. The
  range is the one attribute that can be infinite.
\<close>

datatype extended = Finite rat | Infinity

record scaler =
  data_min' :: rat
  data_max' :: rat
  data_range' :: extended
  scale' :: rat
  min' :: rat

text \<open>
  \<^verbatim>\<open>check_array\<close>: the input is converted to float64, cell by cell with
  \<^verbatim>\<open>float()\<close> when the dtype is object, which raises ValueError on a text that is
  not a number; it must hold at least one sample, and no infinity.
\<close>

definition check_array :: "column \<Rightarrow> exn + rat list" where
  "check_array X =
     (case X of
        Numeric xs \<Rightarrow> if xs = [] then Inl ValueError else Inr (map fl64 xs)
      | Nonfinite \<Rightarrow> Inl ValueError
      | Object cs \<Rightarrow>
          if cs = [] \<or> None \<in> set cs then Inl ValueError else Inr (map (fl64 \<circ> the) cs))"

text \<open>
  \<^verbatim>\<open>_handle_zeros_in_scale\<close> on the array of ranges: a range below \<^verbatim>\<open>10 * eps\<close>
  counts as constant and is replaced by 1.
\<close>

definition handle_zeros_in_scale :: "extended \<Rightarrow> extended" where
  "handle_zeros_in_scale s =
     (case s of
        Finite r \<Rightarrow> if r < 10 * eps then Finite 1 else Finite r
      | Infinity \<Rightarrow> Infinity)"

text \<open>
  \<^verbatim>\<open>fit\<close> resets the scaler and calls \<^verbatim>\<open>partial_fit\<close>, which validates the
  input and computes the attributes from the column minimum and maximum:
  \<^verbatim>\<open>data_range = data_max - data_min\<close>,
  \<^verbatim>\<open>scale_ = (feature_range[1] - feature_range[0]) / _handle_zeros_in_scale(data_range)\<close>,
  \<^verbatim>\<open>min_ = feature_range[0] - data_min * scale_\<close>. \<^verbatim>\<open>transform\<close> validates its
  input and computes \<^verbatim>\<open>X *= scale_; X += min_\<close>.

  The subtraction overflows when the two extremes are far apart and of opposite sign:
  the range is then infinite and the scale is \<^verbatim>\<open>1 / inf\<close>, zero. No other operation
  of the scaler overflows on the data of this script: a finite range is either replaced
  by 1 or at least \<open>2\<^sup>-\<^sup>5\<^sup>3\<close> times the largest magnitude of the data, so that the
  products with the scale stay below \<open>2\<^sup>5\<^sup>4\<close>.
\<close>

definition partial_fit :: "rat list \<Rightarrow> scaler" where
  "partial_fit X =
     (let dmin = Min (set X);
          dmax = Max (set X);
          drange = (if overflows (dmax - dmin) then Infinity else Finite (fl64 (dmax - dmin)));
          scale = (case handle_zeros_in_scale drange of
                     Finite r \<Rightarrow> fl64 ((1 - 0) / r)
                   | Infinity \<Rightarrow> 0);
          mn = fl64 (0 - fl64 (dmin * scale))
      in \<lparr>data_min' = dmin, data_max' = dmax, data_range' = drange,
           scale' = scale, min' = mn\<rparr>)"

definition fit :: "column \<Rightarrow> exn + scaler" where
  "fit X =
     (case check_array X of
        Inl e \<Rightarrow> Inl e
      | Inr X' \<Rightarrow> Inr (partial_fit X'))"

definition transform :: "scaler \<Rightarrow> column \<Rightarrow> exn + rat list" where
  "transform s X =
     (case check_array X of
        Inl e \<Rightarrow> Inl e
      | Inr X' \<Rightarrow> Inr (map (\<lambda>x. fl64 (fl64 (x * scale' s) + min' s)) X'))"

subsection \<open>\<^verbatim>\<open>np.linspace(start, stop, num)\<close>, endpoint included\<close>

text \<open>
  numpy converts both end points to float64, takes \<^verbatim>\<open>delta = stop - start\<close> and
  \<^verbatim>\<open>step = delta / div\<close> with \<^verbatim>\<open>div = num - 1\<close>, multiplies \<^verbatim>\<open>arange(0, num)\<close>
  by the step (or, when the step is zero, divides by \<^verbatim>\<open>div\<close> and multiplies by
  \<^verbatim>\<open>delta\<close>), adds \<^verbatim>\<open>start\<close>, and at last overwrites the final element with
  \<^verbatim>\<open>stop\<close>.

  \<open>linspace\<close> is the array that numpy returns when \<^verbatim>\<open>delta\<close> is finite. When the
  subtraction overflows (\<open>linspace_overflows\<close>), \<^verbatim>\<open>delta\<close> and the step are
  infinite and numpy returns the array \<^verbatim>\<open>nan, inf, ..., inf, stop\<close>, which is not
  a value here: whoever calls \<open>linspace\<close> tests \<open>linspace_overflows\<close> first. With
  a finite \<^verbatim>\<open>delta\<close> no element that is kept overflows: the products up to
  \<^verbatim>\<open>(num - 2) * step\<close> stay below \<^verbatim>\<open>delta\<close>.
\<close>

definition linspace_overflows :: "rat \<Rightarrow> rat \<Rightarrow> bool" where
  "linspace_overflows start stop \<longleftrightarrow> overflows (fl64 stop - fl64 start)"

definition linspace :: "rat \<Rightarrow> rat \<Rightarrow> nat \<Rightarrow> rat list" where
  "linspace start stop num =
     (let dv = num - 1;
          start' = fl64 start;
          stop' = fl64 stop;
          delta = fl64 (stop' - start');
          y = map rat_of_nat [0..<num];
          y = (if 0 < dv then
                 let step = fl64 (delta / of_nat dv)
                 in if step = 0
                    then map (\<lambda>v. fl64 (fl64 (v / of_nat dv) * delta)) y
                    else map (\<lambda>v. fl64 (v * step)) y
               else map (\<lambda>v. fl64 (v * delta)) y);
          y = map (\<lambda>v. fl64 (v + start')) y
      in if 1 < num then y[num - 1 := stop'] else y)"

subsection \<open>\<^verbatim>\<open>plt.hist(x, bins=bins, ...)\<close> through \<^verbatim>\<open>np.histogram\<close>\<close>

text \<open>
  With an array of edges \<^verbatim>\<open>np.histogram\<close> raises ValueError when some edge is greater
  than its successor, and otherwise counts through the sorted data: the cumulative count
  at an edge is the number of samples below it (\<^verbatim>\<open>searchsorted(..., 'left')\<close>), at
  the last edge the number of samples not above it (\<^verbatim>\<open>'right'\<close>); a bin holds the
  difference of the counts at its two edges. \<^verbatim>\<open>searchsorted\<close> compares the samples
  with the float64 edges after converting them to float64.
\<close>

fun decreasing_somewhere :: "rat list \<Rightarrow> bool" where
  "decreasing_somewhere (a # b # es) = (b < a \<or> decreasing_somewhere (b # es))"
| "decreasing_somewhere _ = False"

definition search_sorted_inclusive :: "rat list \<Rightarrow> rat list \<Rightarrow> nat list" where
  "search_sorted_inclusive a v =
     (let a' = map fl64 a
      in map (\<lambda>e. length (filter (\<lambda>x. x < e) a')) (butlast v) @
         map (\<lambda>e. length (filter (\<lambda>x. x \<le> e) a')) (drop (length v - 1) v))"

fun diff :: "nat list \<Rightarrow> nat list" where
  "diff (a # b # cs) = (b - a) # diff (b # cs)"
| "diff _ = []"

definition histogram :: "rat list \<Rightarrow> rat list \<Rightarrow> exn + nat list" where
  "histogram a bin_edges =
     (if decreasing_somewhere bin_edges then Inl ValueError
      else Inr (diff (search_sorted_inclusive a bin_edges)))"

record series =
  data :: "rat list"
  edges :: "rat list"
  counts :: "nat list"
  alpha :: rat
  label :: string
  color :: string

definition hist :: "rat list \<Rightarrow> rat list \<Rightarrow> rat \<Rightarrow> string \<Rightarrow> string \<Rightarrow> exn + series" where
  "hist x bins a lbl col =
     (case histogram x bins of
        Inl e \<Rightarrow> Inl e
      | Inr n \<Rightarrow> Inr \<lparr>data = x, edges = bins, counts = n, alpha = a, label = lbl, color = col\<rparr>)"

record figure =
  figsize :: "nat \<times> nat"
  plots :: "series list"
  title :: string
  xlabel :: string
  ylabel :: string
  legend :: bool
  grid :: "bool \<times> string \<times> rat"

subsection \<open>The script\<close>

text \<open>
  Text that the script writes is a byte string in UTF-8: the letters \<^verbatim>\<open>o\<close> and
  \<^verbatim>\<open>a\<close> with acute accent are the byte pairs C3 B3 and C3 A1.
\<close>

definition o_acute :: string where
  "o_acute = [CHR 0xC3, CHR 0xB3]"

definition a_acute :: string where
  "a_acute = [CHR 0xC3, CHR 0xA1]"

definition not_found_message :: "string \<Rightarrow> string" where
  "not_found_message filename =
     ''Error: No se encontr'' @ o_acute @ '' el archivo '' @ filename @ ''.''"

text \<open>The variables of the script after line 18.\<close>

record vars =
  df_mutex :: "rat list"
  df_sem :: "rat list"
  the_scaler :: scaler
  scaled_mutex :: "rat list"
  scaled_sem :: "rat list"

text \<open>
  How a run ends: \<^verbatim>\<open>plt.show()\<close> has returned and the script falls off its end,
  \<^verbatim>\<open>exit()\<close> has raised \<^verbatim>\<open>SystemExit\<close> with the code it was given, or an
  exception nobody caught ends the process with a traceback.
\<close>

datatype ending =
    Shown vars "rat list" figure
  | SystemExit "nat option"
  | Uncaught exn

record run =
  stdout :: "string list"
  ending :: ending

text \<open>
  Lines 13 to 18: the scaler and the two scaled arrays. Two numeric columns concatenate
  to a numeric column; with a column of dtype object the result has dtype object, the
  numbers being cells that \<^verbatim>\<open>float()\<close> reads back; an infinity stays in the result.
\<close>

fun cells :: "column \<Rightarrow> rat option list" where
  "cells (Numeric xs) = map Some xs"
| "cells Nonfinite = [None]"
| "cells (Object cs) = cs"

definition concat_frames :: "column \<Rightarrow> column \<Rightarrow> column" where
  "concat_frames a b =
     (case (a, b) of
        (Numeric xs, Numeric ys) \<Rightarrow> Numeric (xs @ ys)
      | (Numeric xs, Nonfinite) \<Rightarrow> Nonfinite
      | (Nonfinite, Numeric ys) \<Rightarrow> Nonfinite
      | (Nonfinite, Nonfinite) \<Rightarrow> Nonfinite
      | _ \<Rightarrow> Object (cells a @ cells b))"

text \<open>
  \<^verbatim>\<open>df['lat']\<close>, the values of a numeric column. Lines 21 to 25 read the two tables
  through it; by then both columns are non-empty, since \<^verbatim>\<open>scaler.transform\<close> has
  accepted them, and a column of text has ended the run (\<open>is_text\<close>).
\<close>

fun lat :: "column \<Rightarrow> rat list" where
  "lat (Numeric xs) = xs"
| "lat _ = []"

fun is_text :: "column \<Rightarrow> bool" where
  "is_text (Object cs) = True"
| "is_text _ = False"

definition normalise :: "column \<Rightarrow> column \<Rightarrow> exn + vars" where
  "normalise dm ds =
     (let combined = concat_frames dm ds
      in case fit combined of
           Inl e \<Rightarrow> Inl e
         | Inr sc \<Rightarrow>
             (case transform sc dm of
                Inl e \<Rightarrow> Inl e
              | Inr sm \<Rightarrow>
                  (case transform sc ds of
                     Inl e \<Rightarrow> Inl e
                   | Inr ss \<Rightarrow>
                       Inr \<lparr>df_mutex = lat dm, df_sem = lat ds, the_scaler = sc,
                             scaled_mutex = sm, scaled_sem = ss\<rparr>)))"

text \<open>
  Lines 21 to 23. \<^verbatim>\<open>Series.min\<close> and \<^verbatim>\<open>Series.max\<close> are taken of non-empty
  numeric columns only, see \<open>lat\<close>.
\<close>

definition min_limit :: "vars \<Rightarrow> rat" where
  "min_limit v = min (Min (set (df_mutex v))) (Min (set (df_sem v)))"

definition max_limit :: "vars \<Rightarrow> rat" where
  "max_limit v = max (Max (set (df_mutex v))) (Max (set (df_sem v)))"

definition bins :: "vars \<Rightarrow> rat list" where
  "bins v = linspace (min_limit v) (max_limit v) 100"

text \<open>
  Lines 20 to 30: the figure. When \<^verbatim>\<open>max_limit - min_limit\<close> overflows,
  \<^verbatim>\<open>bins\<close> is \<^verbatim>\<open>nan, inf, ..., inf, max_limit\<close>: an infinite edge is greater than
  the last one, and the first \<^verbatim>\<open>plt.hist\<close> raises the ValueError of
  \<^verbatim>\<open>np.histogram\<close>.
\<close>

definition plot :: "vars \<Rightarrow> exn + figure" where
  "plot v =
     (if linspace_overflows (min_limit v) (max_limit v) then Inl ValueError
      else
        case hist (df_mutex v) (bins v) (7 / 10) ''Mutex'' ''skyblue'' of
          Inl e \<Rightarrow> Inl e
        | Inr h1 \<Rightarrow>
            (case hist (df_sem v) (bins v) (7 / 10) (''Sem'' @ a_acute @ ''foro'') ''salmon'' of
               Inl e \<Rightarrow> Inl e
             | Inr h2 \<Rightarrow>
                 Inr \<lparr>figsize = (12, 7),
                       plots = [h1, h2],
                       title = ''Distribuci'' @ o_acute @ ''n de Latencias en Idle (Mutex vs Sem''
                               @ a_acute @ ''foro)'',
                       xlabel = ''Latencia (ns)'',
                       ylabel = ''Frecuencia'',
                       legend = True,
                       grid = (True, ''--'', 6 / 10)\<rparr>))"

text \<open>Lines 9 to 11: the handler of the \<^verbatim>\<open>try\<close>, and what happens to any other exception.\<close>

definition raise :: "exn \<Rightarrow> run" where
  "raise e =
     (case e of
        FileNotFoundError filename \<Rightarrow>
          \<lparr>stdout = [not_found_message filename], ending = SystemExit None\<rparr>
      | _ \<Rightarrow> \<lparr>stdout = [], ending = Uncaught e\<rparr>)"

definition uncaught :: "exn \<Rightarrow> run" where
  "uncaught e = \<lparr>stdout = [], ending = Uncaught e\<rparr>"

text \<open>
  The whole script. When the scaler has accepted a column of text, the minimum and the
  maximum of that column are texts, and lines 21 to 23 raise TypeError when they meet
  a number: in \<^verbatim>\<open>min\<close> and \<^verbatim>\<open>max\<close> against the other column, or in
  \<^verbatim>\<open>np.linspace\<close>.
\<close>

definition script :: "(string \<Rightarrow> file_state) \<Rightarrow> run" where
  "script fs =
     (case read_csv fs mutex_csv of
        Inl e \<Rightarrow> raise e
      | Inr dm \<Rightarrow>
          (case read_csv fs sem_csv of
             Inl e \<Rightarrow> raise e
           | Inr ds \<Rightarrow>
               (case normalise dm ds of
                  Inl e \<Rightarrow> uncaught e
                | Inr v \<Rightarrow>
                    if is_text dm \<or> is_text ds then uncaught TypeError
                    else
                      (case plot v of
                         Inl e \<Rightarrow> uncaught e
                       | Inr fig \<Rightarrow> \<lparr>stdout = [], ending = Shown v (bins v) fig\<rparr>))))"

text \<open>The exit status of the process.\<close>

fun exit_status :: "ending \<Rightarrow> nat" where
  "exit_status (Shown _ _ _) = 0"
| "exit_status (SystemExit None) = 0"
| "exit_status (SystemExit (Some n)) = n"
| "exit_status (Uncaught _) = 1"

text \<open>
  A loaded sample set the claims speak of: at least one row, every value a float64.
\<close>

definition f64_samples :: "rat list \<Rightarrow> bool" where
  "f64_samples xs \<longleftrightarrow> xs \<noteq> [] \<and> list_all is_f64 xs"

text \<open>
  A range that 100 edges resolve: the difference of the two limits does not overflow,
  and it is zero or at least \<open>2\<^sup>-\<^sup>1\<^sup>0\<^sup>1\<^sup>5\<close>, so that the step is not in the range
  of gradual underflow.
\<close>

definition ordinary_range :: "rat \<Rightarrow> rat \<Rightarrow> bool" where
  "ordinary_range lo hi \<longleftrightarrow>
     \<not> linspace_overflows lo hi \<and> (hi = lo \<or> 2 powi (- 1015) \<le> hi - lo)"

text \<open>A working directory that holds at most the two input files.\<close>

definition fs_of :: "file_state \<Rightarrow> file_state \<Rightarrow> string \<Rightarrow> file_state" where
  "fs_of mutex_file sem_file path =
     (if path = mutex_csv then mutex_file
      else if path = sem_csv then sem_file
      else Absent)"

fun shown :: "ending \<Rightarrow> bool" where
  "shown (Shown _ _ _) = True"
| "shown _ = False"

section \<open>Properties of the float64 rounding\<close>

lemma two_powi_pos [simp]: "0 < (2::rat) powi k"
  by (simp add: zero_less_power_int)

lemma two_powi_Suc: "(2::rat) powi (k + 1) = 2 * 2 powi k"
  by (simp add: power_int_add)

lemma two_powi_pred: "(2::rat) powi (k - 1) = 2 powi k / 2"
  by (simp add: power_int_diff)

lemma ilog2_bounds:
  "0 < x \<Longrightarrow> 2 powi (ilog2 x) \<le> x \<and> x < 2 powi (ilog2 x + 1)"
proof (induction x rule: ilog2.induct)
  case (1 x)
  show ?case
  proof (cases "2 \<le> x")
    case True
    then have eq: "ilog2 x = ilog2 (x / 2) + 1" using 1(3) by (subst ilog2.simps) simp
    have "2 powi (ilog2 (x / 2)) \<le> x / 2 \<and> x / 2 < 2 powi (ilog2 (x / 2) + 1)"
      using 1(1) True 1(3) by simp
    then show ?thesis unfolding eq by (simp add: power_int_add)
  next
    case False
    show ?thesis
    proof (cases "x < 1")
      case True
      then have eq: "ilog2 x = ilog2 (x * 2) - 1" using 1(3) False by (subst ilog2.simps) simp
      have "2 powi (ilog2 (x * 2)) \<le> x * 2 \<and> x * 2 < 2 powi (ilog2 (x * 2) + 1)"
        using 1(2) True False 1(3) by simp
      then show ?thesis unfolding eq by (simp add: power_int_add power_int_diff)
    next
      case F2: False
      then have "ilog2 x = 0" using False 1(3) by (subst ilog2.simps) simp
      then show ?thesis using False F2 by simp
    qed
  qed
qed

lemma two_powi_mono: "k \<le> l \<Longrightarrow> (2::rat) powi k \<le> 2 powi l"
  by (rule power_int_increasing) simp_all

lemma two_powi_less_imp: "(2::rat) powi k < 2 powi l \<Longrightarrow> k < l"
  using two_powi_mono[of l k] by (cases "k < l") auto

lemma ilog2_unique:
  assumes "0 < x" "2 powi k \<le> x" "x < 2 powi (k + 1)"
  shows "ilog2 x = k"
proof -
  from ilog2_bounds[OF assms(1)]
  have b: "2 powi (ilog2 x) \<le> x" "x < 2 powi (ilog2 x + 1)" by simp_all
  have "(2::rat) powi k < 2 powi (ilog2 x + 1)" using assms(2) b(2) by simp
  then have "k < ilog2 x + 1" by (rule two_powi_less_imp)
  moreover have "(2::rat) powi (ilog2 x) < 2 powi (k + 1)" using assms(3) b(1) by simp
  then have "ilog2 x < k + 1" by (rule two_powi_less_imp)
  ultimately show ?thesis by simp
qed

lemma rhe_of_int [simp]: "round_half_even (of_int n) = n"
  by (simp add: round_half_even_def)

lemma rhe_cases: "round_half_even m = \<lfloor>m\<rfloor> \<or> round_half_even m = \<lfloor>m\<rfloor> + 1"
  by (simp add: round_half_even_def Let_def)

lemma rhe_alt:
  "round_half_even m =
     (if m - of_int \<lfloor>m\<rfloor> < 1 / 2 then \<lfloor>m\<rfloor>
      else if 1 / 2 < m - of_int \<lfloor>m\<rfloor> then \<lfloor>m\<rfloor> + 1
      else if even \<lfloor>m\<rfloor> then \<lfloor>m\<rfloor> else \<lfloor>m\<rfloor> + 1)"
  by (simp add: round_half_even_def Let_def)

lemma rhe_error: "\<bar>of_int (round_half_even m) - m\<bar> \<le> 1 / 2"
proof -
  have d: "0 \<le> m - of_int \<lfloor>m\<rfloor>" "m - of_int \<lfloor>m\<rfloor> < 1" by linarith+
  consider "round_half_even m = \<lfloor>m\<rfloor>" "m - of_int \<lfloor>m\<rfloor> \<le> 1 / 2"
    | "round_half_even m = \<lfloor>m\<rfloor> + 1" "1 / 2 \<le> m - of_int \<lfloor>m\<rfloor>"
    unfolding rhe_alt by (cases "m - of_int \<lfloor>m\<rfloor> < 1 / 2"; cases "1 / 2 < m - of_int \<lfloor>m\<rfloor>"; cases "even \<lfloor>m\<rfloor>"; simp)
  then show ?thesis
  proof cases
    case 1
    then show ?thesis using d by (simp add: abs_le_iff)
  next
    case 2
    then show ?thesis using d by (simp add: abs_le_iff)
  qed
qed

lemma rhe_mono: "m \<le> n \<Longrightarrow> round_half_even m \<le> round_half_even n"
proof -
  assume mn: "m \<le> n"
  have fl: "\<lfloor>m\<rfloor> \<le> \<lfloor>n\<rfloor>" using mn by (rule floor_mono)
  show ?thesis
  proof (cases "\<lfloor>m\<rfloor> = \<lfloor>n\<rfloor>")
    case True
    have le: "m - of_int \<lfloor>n\<rfloor> \<le> n - of_int \<lfloor>n\<rfloor>" using mn by simp
    show ?thesis
    proof (cases "n - of_int \<lfloor>n\<rfloor> < 1 / 2")
      case A: True
      then have "m - of_int \<lfloor>n\<rfloor> < 1 / 2" using le by linarith
      then show ?thesis using A True by (simp add: rhe_alt)
    next
      case A: False
      show ?thesis
      proof (cases "1 / 2 < n - of_int \<lfloor>n\<rfloor>")
        case B: True
        then have "round_half_even n = \<lfloor>n\<rfloor> + 1" using A by (simp add: rhe_alt)
        then show ?thesis using rhe_cases[of m] True by auto
      next
        case B: False
        then have n: "n - of_int \<lfloor>n\<rfloor> = 1 / 2" using A by simp
        show ?thesis
        proof (cases "m - of_int \<lfloor>n\<rfloor> < 1 / 2")
          case C: True
          then have "round_half_even m = \<lfloor>n\<rfloor>" using True by (simp add: rhe_alt)
          then show ?thesis using rhe_cases[of n] by auto
        next
          case C: False
          then have "m - of_int \<lfloor>n\<rfloor> = 1 / 2" using le n by simp
          then have "m = n" using n by simp
          then show ?thesis by simp
        qed
      qed
    qed
  next
    case False
    then have "\<lfloor>m\<rfloor> + 1 \<le> \<lfloor>n\<rfloor>" using fl by simp
    then show ?thesis using rhe_cases[of m] rhe_cases[of n] by auto
  qed
qed

lemma rhe_zero [simp]: "round_half_even 0 = 0"
  by (simp add: round_half_even_def)

lemma rhe_nonneg: "0 \<le> m \<Longrightarrow> 0 \<le> round_half_even m"
  using rhe_mono[of 0 m] by simp

lemma fl64_zero [simp]: "fl64 0 = 0"
  by (simp add: fl64_def)

lemma fl64_pos_eq:
  "0 < x \<Longrightarrow> fl64 x = of_int (round_half_even (x / 2 powi (max (ilog2 x) (- 1022) - 52)))
                     * 2 powi (max (ilog2 x) (- 1022) - 52)"
  by (simp add: fl64_def Let_def)

lemma fl64_minus: "fl64 (- x) = - fl64 x"
  by (simp add: fl64_def Let_def)

lemma quantum_eq: "(2::rat) powi (e - 52) = 2 powi e / 2 ^ 52"
  by (simp add: power_int_diff)

lemma ilog2_normal:
  assumes "2 powi (- 1022) \<le> x"
  shows "- 1022 \<le> ilog2 x"
proof -
  have x: "0 < x" using assms two_powi_pos[of "- 1022"] by linarith
  have "(2::rat) powi (- 1022) < 2 powi (ilog2 x + 1)" using ilog2_bounds[OF x] assms by linarith
  then have "- 1022 < ilog2 x + 1" by (rule two_powi_less_imp)
  then show ?thesis by simp
qed

lemma ilog2_subnormal:
  assumes "0 < x" "x < 2 powi (- 1022)"
  shows "ilog2 x < - 1022"
proof -
  have "(2::rat) powi (ilog2 x) < 2 powi (- 1022)" using ilog2_bounds[OF assms(1)] assms(2) by linarith
  then show ?thesis by (rule two_powi_less_imp)
qed

lemma mant_upper:
  assumes "0 < x"
  shows "x / 2 powi (max (ilog2 x) (- 1022) - 52) < 2 ^ 53"
proof -
  define e where "e = max (ilog2 x) (- 1022)"
  have "x < 2 powi (ilog2 x + 1)" using ilog2_bounds[OF assms] by simp
  also have "\<dots> \<le> 2 powi (e + 1)" by (rule two_powi_mono) (simp add: e_def)
  also have "\<dots> = 2 * 2 powi e" by (rule two_powi_Suc)
  finally have b: "x < 2 * 2 powi e" .
  have p: "0 < (2::rat) powi e" by simp
  have "x / 2 powi (e - 52) < 2 ^ 53"
    unfolding quantum_eq using b p by (simp add: field_simps)
  then show ?thesis by (simp only: e_def)
qed

lemma mant_lower:
  assumes "0 < x" "- 1022 \<le> ilog2 x"
  shows "2 ^ 52 \<le> x / 2 powi (max (ilog2 x) (- 1022) - 52)"
proof -
  have e: "max (ilog2 x) (- 1022) = ilog2 x" using assms(2) by simp
  have b: "2 powi (ilog2 x) \<le> x" using ilog2_bounds[OF assms(1)] by simp
  have p: "0 < (2::rat) powi (ilog2 x)" by simp
  show ?thesis unfolding e quantum_eq using b p by (simp add: field_simps)
qed

lemma of_int_le_2p: "n \<le> 2 ^ k \<Longrightarrow> (of_int n :: rat) \<le> 2 ^ k"
  by (metis of_int_le_iff of_int_numeral of_int_power)

lemma of_int_ge_2p: "2 ^ k \<le> n \<Longrightarrow> (2::rat) ^ k \<le> of_int n"
  by (metis of_int_le_iff of_int_numeral of_int_power)

lemma of_int_less_2p: "n < 2 ^ k \<Longrightarrow> (of_int n :: rat) < 2 ^ k"
  by (metis of_int_less_iff of_int_numeral of_int_power)

lemma rhe_mant_upper:
  assumes "0 < x"
  shows "round_half_even (x / 2 powi (max (ilog2 x) (- 1022) - 52)) \<le> 2 ^ 53"
proof -
  have "round_half_even (x / 2 powi (max (ilog2 x) (- 1022) - 52)) \<le> round_half_even (of_int (2 ^ 53))"
    by (rule rhe_mono) (use mant_upper[OF assms] in simp)
  then show ?thesis by (simp only: rhe_of_int)
qed

lemma rhe_mant_lower:
  assumes "0 < x" "- 1022 \<le> ilog2 x"
  shows "2 ^ 52 \<le> round_half_even (x / 2 powi (max (ilog2 x) (- 1022) - 52))"
proof -
  have "round_half_even (of_int (2 ^ 52)) \<le> round_half_even (x / 2 powi (max (ilog2 x) (- 1022) - 52))"
    by (rule rhe_mono) (use mant_lower[OF assms] in simp)
  then show ?thesis by (simp only: rhe_of_int)
qed

lemma rhe_mant_nonneg:
  assumes "0 < x"
  shows "0 \<le> round_half_even (x / 2 powi (max (ilog2 x) (- 1022) - 52))"
  by (rule rhe_nonneg) (use assms in simp)

lemma fl64_le_pow:
  assumes "0 < x"
  shows "fl64 x \<le> 2 powi (max (ilog2 x) (- 1022) + 1)"
proof -
  define e where "e = max (ilog2 x) (- 1022)"
  define n where "n = round_half_even (x / 2 powi (e - 52))"
  have n: "n \<le> 2 ^ 53" using rhe_mant_upper[OF assms] by (simp add: n_def e_def)
  have f: "fl64 x = of_int n * (2 powi e / 2 ^ 52)"
    using fl64_pos_eq[OF assms] by (simp add: n_def e_def quantum_eq)
  have p: "0 < (2::rat) powi e" by simp
  have "of_int n * 2 powi e \<le> (2::rat) ^ 53 * 2 powi e"
    using of_int_le_2p[OF n] p by (intro mult_right_mono) simp_all
  then have "fl64 x \<le> 2 powi (e + 1)" unfolding f by (simp add: field_simps power_int_add)
  then show ?thesis by (simp only: e_def)
qed

lemma fl64_ge_pow:
  assumes "0 < x" "- 1022 \<le> ilog2 x"
  shows "2 powi (ilog2 x) \<le> fl64 x"
proof -
  have e: "max (ilog2 x) (- 1022) = ilog2 x" using assms(2) by simp
  define n where "n = round_half_even (x / 2 powi (ilog2 x - 52))"
  have n: "2 ^ 52 \<le> n" using rhe_mant_lower[OF assms] by (simp add: n_def e)
  have f: "fl64 x = of_int n * (2 powi (ilog2 x) / 2 ^ 52)"
    using fl64_pos_eq[OF assms(1)] by (simp add: n_def e quantum_eq)
  have p: "0 < (2::rat) powi (ilog2 x)" by simp
  have "(2::rat) ^ 52 * 2 powi (ilog2 x) \<le> of_int n * 2 powi (ilog2 x)"
    using of_int_ge_2p[OF n] p by (intro mult_right_mono) simp_all
  then show ?thesis unfolding f by (simp add: field_simps)
qed

lemma fl64_nonneg_pos: "0 < x \<Longrightarrow> 0 \<le> fl64 x"
  using rhe_mant_nonneg[of x] by (simp add: fl64_pos_eq)

lemma fl64_nonneg: "0 \<le> x \<Longrightarrow> 0 \<le> fl64 x"
  using fl64_nonneg_pos[of x] by (cases "x = 0") simp_all

lemma fl64_nonpos: "x \<le> 0 \<Longrightarrow> fl64 x \<le> 0"
  using fl64_nonneg[of "- x"] by (simp add: fl64_minus)

lemma ilog2_mono:
  assumes "0 < x" "x \<le> y"
  shows "ilog2 x \<le> ilog2 y"
proof -
  have "2 powi (ilog2 x) \<le> x" using ilog2_bounds[OF assms(1)] by simp
  moreover have "y < 2 powi (ilog2 y + 1)" using ilog2_bounds[of y] assms by simp
  ultimately have "(2::rat) powi (ilog2 x) < 2 powi (ilog2 y + 1)" using assms(2) by linarith
  then have "ilog2 x < ilog2 y + 1" by (rule two_powi_less_imp)
  then show ?thesis by simp
qed

lemma fl64_mono_pos:
  assumes "0 < x" "x \<le> y"
  shows "fl64 x \<le> fl64 y"
proof -
  define ex where "ex = max (ilog2 x) (- 1022)"
  define ey where "ey = max (ilog2 y) (- 1022)"
  have y: "0 < y" using assms by simp
  have le: "ex \<le> ey" using ilog2_mono[OF assms] by (simp add: ex_def ey_def)
  show ?thesis
  proof (cases "ex = ey")
    case True
    have "x / 2 powi (ey - 52) \<le> y / 2 powi (ey - 52)"
      using assms(2) by (simp add: divide_right_mono)
    then have "round_half_even (x / 2 powi (ey - 52)) \<le> round_half_even (y / 2 powi (ey - 52))"
      by (rule rhe_mono)
    then have "(of_int (round_half_even (x / 2 powi (ey - 52))) :: rat)
               \<le> of_int (round_half_even (y / 2 powi (ey - 52)))" by simp
    then have "of_int (round_half_even (x / 2 powi (ey - 52))) * 2 powi (ey - 52)
               \<le> of_int (round_half_even (y / 2 powi (ey - 52))) * (2::rat) powi (ey - 52)"
      by (rule mult_right_mono) simp
    then show ?thesis
      using fl64_pos_eq[OF assms(1)] fl64_pos_eq[OF y] True by (simp add: ex_def ey_def)
  next
    case False
    then have lt: "ex + 1 \<le> ey" using le by simp
    then have "- 1022 < ey" by (simp add: ex_def)
    then have n: "- 1022 \<le> ilog2 y" "ey = ilog2 y" by (simp_all add: ey_def)
    have "fl64 x \<le> 2 powi (ex + 1)" using fl64_le_pow[OF assms(1)] by (simp add: ex_def)
    also have "\<dots> \<le> 2 powi ey" using lt by (rule two_powi_mono)
    also have "\<dots> \<le> fl64 y" unfolding n(2) using y n(1) by (rule fl64_ge_pow)
    finally show ?thesis .
  qed
qed

lemma fl64_mono: "x \<le> y \<Longrightarrow> fl64 x \<le> fl64 y"
proof -
  assume xy: "x \<le> y"
  consider "0 < x" | "x \<le> 0" "0 \<le> y" | "x < 0" "y < 0"
    using xy by linarith
  then show ?thesis
  proof cases
    case 1 then show ?thesis using xy by (rule fl64_mono_pos)
  next
    case 2
    then show ?thesis using fl64_nonneg[of y] fl64_nonpos[of x] by linarith
  next
    case 3
    have "fl64 (- y) \<le> fl64 (- x)" using 3 xy by (intro fl64_mono_pos) simp_all
    then show ?thesis by (simp add: fl64_minus)
  qed
qed

lemma f64_int_scaled_pos:
  assumes "0 < n" "n < 2 ^ 53" "- 1074 \<le> k"
  shows "fl64 (of_int n * 2 powi k) = of_int n * 2 powi k"
proof -
  define x :: rat where "x = of_int n * 2 powi k"
  define e where "e = max (ilog2 x) (- 1022)"
  have x: "0 < x" using assms(1) by (simp add: x_def)
  have "x < 2 ^ 53 * 2 powi k"
    unfolding x_def using of_int_less_2p[OF assms(2)] by (intro mult_strict_right_mono) simp_all
  also have "\<dots> = 2 powi (53 + k)" by (simp add: power_int_add)
  finally have "2 powi (ilog2 x) < (2::rat) powi (53 + k)" using ilog2_bounds[OF x] by simp
  then have "ilog2 x < 53 + k" by (rule two_powi_less_imp)
  then have j: "0 \<le> k - e + 52" using assms(3) by (simp add: e_def)
  define j where "j = nat (k - e + 52)"
  have "x / 2 powi (e - 52) = of_int n * (2 powi k / 2 powi (e - 52))" by (simp add: x_def)
  also have "2 powi k / 2 powi (e - 52) = (2::rat) powi (k - e + 52)"
    by (simp add: power_int_diff power_int_add field_simps)
  also have "\<dots> = 2 ^ j" using j by (simp add: j_def power_int_def)
  finally have m: "x / 2 powi (e - 52) = of_int (n * 2 ^ j)" by simp
  have "fl64 x = of_int (round_half_even (x / 2 powi (e - 52))) * 2 powi (e - 52)"
    using fl64_pos_eq[OF x] by (simp add: e_def)
  also have "\<dots> = x / 2 powi (e - 52) * 2 powi (e - 52)"
    unfolding m rhe_of_int ..
  also have "\<dots> = x" by simp
  finally show ?thesis by (simp add: x_def)
qed

lemma f64_int_scaled: "\<bar>n\<bar> < 2 ^ 53 \<Longrightarrow> - 1074 \<le> k \<Longrightarrow> is_f64 (of_int n * 2 powi k)"
proof -
  assume a: "\<bar>n\<bar> < 2 ^ 53" and k: "- 1074 \<le> k"
  consider "0 < n" | "n = 0" | "n < 0" by linarith
  then show ?thesis
  proof cases
    case 1 then show ?thesis using a k f64_int_scaled_pos[of n k] by (simp add: is_f64_def)
  next
    case 2 then show ?thesis by (simp add: is_f64_def)
  next
    case 3
    then have "fl64 (of_int (- n) * 2 powi k) = of_int (- n) * 2 powi k"
      using a k by (intro f64_int_scaled_pos) simp_all
    then show ?thesis using fl64_minus[of "of_int n * 2 powi k"] by (simp add: is_f64_def)
  qed
qed

lemma f64_of_int: "\<bar>n\<bar> < 2 ^ 53 \<Longrightarrow> is_f64 (of_int n)"
  using f64_int_scaled[of n 0] by simp

lemma fl64_two_powi: "- 1074 \<le> k \<Longrightarrow> fl64 (2 powi k) = 2 powi k"
  using f64_int_scaled_pos[of 1 k] by simp

lemma fl64_idem_pos:
  assumes "0 < x"
  shows "fl64 (fl64 x) = fl64 x"
proof -
  define e where "e = max (ilog2 x) (- 1022)"
  define n where "n = round_half_even (x / 2 powi (e - 52))"
  have n: "0 \<le> n" "n \<le> 2 ^ 53"
    using rhe_mant_nonneg[OF assms] rhe_mant_upper[OF assms] by (simp_all add: n_def e_def)
  have f: "fl64 x = of_int n * 2 powi (e - 52)"
    using fl64_pos_eq[OF assms] by (simp add: n_def e_def)
  have e: "- 1074 \<le> e - 52" by (simp add: e_def)
  consider "n = 0" | "n = 2 ^ 53" | "0 < n" "n < 2 ^ 53" using n by linarith
  then show ?thesis
  proof cases
    case 1
    then show ?thesis unfolding f by simp
  next
    case 2
    have "fl64 x = 2 powi (e + 1)"
      unfolding f 2 by (simp add: power_int_add power_int_diff)
    moreover have "fl64 (2 powi (e + 1)) = 2 powi (e + 1)"
      by (rule fl64_two_powi) (use e in simp)
    ultimately show ?thesis by simp
  next
    case 3
    then show ?thesis unfolding f using e by (intro f64_int_scaled_pos)
  qed
qed

lemma fl64_idem [simp]: "fl64 (fl64 x) = fl64 x"
proof -
  consider "0 < x" | "x = 0" | "x < 0" by linarith
  then show ?thesis
  proof cases
    case 1 then show ?thesis by (rule fl64_idem_pos)
  next
    case 2 then show ?thesis by simp
  next
    case 3
    then have "fl64 (fl64 (- x)) = fl64 (- x)" by (intro fl64_idem_pos) simp
    then show ?thesis by (simp add: fl64_minus)
  qed
qed

lemma is_f64_fl64 [simp]: "is_f64 (fl64 x)"
  by (simp add: is_f64_def)

lemma is_f64_minus: "is_f64 x \<Longrightarrow> is_f64 (- x)"
  by (simp add: is_f64_def fl64_minus)

text \<open>
  The rounding error: half a quantum, which is at most \<open>2\<^sup>-\<^sup>5\<^sup>3\<close> times the
  magnitude in the normal range and \<open>2\<^sup>-\<^sup>1\<^sup>0\<^sup>7\<^sup>5\<close> below it.
\<close>

lemma fl64_error_quantum:
  assumes "0 < x"
  shows "\<bar>fl64 x - x\<bar> \<le> 2 powi (max (ilog2 x) (- 1022) - 52) / 2"
proof -
  define q :: rat where "q = 2 powi (max (ilog2 x) (- 1022) - 52)"
  define m where "m = x / q"
  have q: "0 < q" by (simp add: q_def)
  have x: "x = m * q" using q by (simp add: m_def)
  have f: "fl64 x = of_int (round_half_even m) * q"
    using fl64_pos_eq[OF assms] by (simp add: q_def m_def)
  have "fl64 x - x = of_int (round_half_even m) * q - m * q"
    by (simp only: f x[symmetric])
  also have "\<dots> = (of_int (round_half_even m) - m) * q"
    by (simp add: algebra_simps)
  finally have "fl64 x - x = (of_int (round_half_even m) - m) * q" .
  then have "\<bar>fl64 x - x\<bar> = \<bar>of_int (round_half_even m) - m\<bar> * q"
    using q by (simp add: abs_mult)
  also have "\<dots> \<le> 1 / 2 * q" using rhe_error[of m] q by (intro mult_right_mono) simp_all
  finally show ?thesis by (simp add: q_def)
qed

lemma fl64_error_pos:
  assumes "2 powi (- 1022) \<le> x"
  shows "\<bar>fl64 x - x\<bar> \<le> x / 2 ^ 53"
proof -
  have x: "0 < x" using assms two_powi_pos[of "- 1022"] by linarith
  have e: "max (ilog2 x) (- 1022) = ilog2 x" using ilog2_normal[OF assms] by simp
  define q :: rat where "q = 2 powi (ilog2 x - 52)"
  define c :: rat where "c = 2 ^ 52"
  have c: "0 < c" "(2::rat) ^ 53 = 2 * c" by (simp_all add: c_def)
  have "q = 2 powi (ilog2 x) / c" by (simp add: q_def c_def quantum_eq)
  then have "q * c \<le> x" using ilog2_bounds[OF x] c(1) by simp
  then have qx: "q / 2 \<le> x / 2 ^ 53" unfolding c(2) using c(1) by (simp add: field_simps)
  have "\<bar>fl64 x - x\<bar> \<le> q / 2" using fl64_error_quantum[OF x] by (simp add: e q_def)
  then show ?thesis using qx by linarith
qed

lemma fl64_error_sub_pos:
  assumes "0 < x" "x < 2 powi (- 1022)"
  shows "\<bar>fl64 x - x\<bar> \<le> 2 powi (- 1075)"
proof -
  have e: "max (ilog2 x) (- 1022) = - 1022" using ilog2_subnormal[OF assms] by simp
  have "(2::rat) powi (- 1022 - 52) / 2 = 2 powi (- 1075)"
    using two_powi_pred[of "- 1074"] by simp
  then show ?thesis using fl64_error_quantum[OF assms(1)] by (simp add: e)
qed

lemma fl64_error: "x = 0 \<or> 2 powi (- 1022) \<le> \<bar>x\<bar> \<Longrightarrow> \<bar>fl64 x - x\<bar> \<le> \<bar>x\<bar> / 2 ^ 53"
proof -
  assume a: "x = 0 \<or> 2 powi (- 1022) \<le> \<bar>x\<bar>"
  consider "x = 0" | "2 powi (- 1022) \<le> x" | "2 powi (- 1022) \<le> - x" "x < 0"
    using a by (cases "0 \<le> x") auto
  then show ?thesis
  proof cases
    case 1 then show ?thesis by simp
  next
    case 2
    then have "0 < x" using two_powi_pos[of "- 1022"] by linarith
    then show ?thesis using fl64_error_pos[OF 2] by simp
  next
    case 3
    then have "\<bar>fl64 (- x) - (- x)\<bar> \<le> (- x) / 2 ^ 53" by (intro fl64_error_pos)
    then show ?thesis using 3 by (simp add: fl64_minus abs_minus_commute)
  qed
qed

lemma fl64_error_abs: "\<bar>fl64 x - x\<bar> \<le> \<bar>x\<bar> / 2 ^ 53 + 2 powi (- 1075)"
proof -
  have p: "0 < (2::rat) powi (- 1075)" by simp
  have pos: "\<bar>fl64 y - y\<bar> \<le> y / 2 ^ 53 + 2 powi (- 1075)" if y: "0 < y" for y
  proof (cases "2 powi (- 1022) \<le> y")
    case True
    then show ?thesis using fl64_error_pos[OF True] p by linarith
  next
    case False
    then have "\<bar>fl64 y - y\<bar> \<le> 2 powi (- 1075)" using y by (intro fl64_error_sub_pos) simp_all
    moreover have "0 \<le> y / 2 ^ 53" using y by simp
    ultimately show ?thesis by linarith
  qed
  consider "0 < x" | "x = 0" | "x < 0" by linarith
  then show ?thesis
  proof cases
    case 1 then show ?thesis using pos[of x] by simp
  next
    case 2 then show ?thesis by simp
  next
    case 3
    then have "\<bar>fl64 (- x) - (- x)\<bar> \<le> (- x) / 2 ^ 53 + 2 powi (- 1075)" by (intro pos) simp
    then show ?thesis using 3 by (simp add: fl64_minus abs_minus_commute)
  qed
qed

lemma fl64_upper:
  assumes "x = 0 \<or> 2 powi (- 1022) \<le> x"
  shows "fl64 x \<le> x * (1 + 1 / 2 ^ 53)"
proof -
  have x: "0 \<le> x" using assms two_powi_pos[of "- 1022"] by (cases "x = 0") auto
  have "x = 0 \<or> 2 powi (- 1022) \<le> \<bar>x\<bar>" using assms x by auto
  then have "fl64 x - x \<le> \<bar>x\<bar> / 2 ^ 53" using fl64_error[of x] by (simp only: abs_le_iff)
  then have "fl64 x \<le> x + x / 2 ^ 53" using x by simp
  also have "\<dots> = x * (1 + 1 / 2 ^ 53)" by (simp add: distrib_left)
  finally show ?thesis .
qed

lemma fl64_normal:
  assumes "2 powi (- 1022) \<le> x"
  shows "2 powi (- 1022) \<le> fl64 x"
proof -
  have "fl64 (2 powi (- 1022)) = 2 powi (- 1022)" by (rule fl64_two_powi) simp
  then show ?thesis using fl64_mono[OF assms] by (simp only:)
qed

lemma fl64_error_coarse:
  assumes "x = 0 \<or> 2 powi (- 1022) \<le> \<bar>x\<bar>"
  shows "\<bar>fl64 x - x\<bar> \<le> \<bar>x\<bar> / 10 ^ 15"
proof -
  have "\<bar>x\<bar> / 2 ^ 53 \<le> \<bar>x\<bar> / 10 ^ 15"
    by (intro divide_left_mono) simp_all
  then show ?thesis using fl64_error[OF assms] by linarith
qed

lemma fl64_upper_coarse:
  assumes "x = 0 \<or> 2 powi (- 1022) \<le> x"
  shows "fl64 x \<le> x * (1001 / 1000)"
proof -
  have x: "0 \<le> x" using assms two_powi_pos[of "- 1022"] by (cases "x = 0") auto
  have "x * (1 + 1 / 2 ^ 53) \<le> x * (1001 / 1000)"
    using x by (intro mult_left_mono) simp_all
  then show ?thesis using fl64_upper[OF assms] by linarith
qed

lemma fl64_lower_coarse:
  assumes "x = 0 \<or> 2 powi (- 1022) \<le> x"
  shows "x * (999 / 1000) \<le> fl64 x"
proof -
  have x: "0 \<le> x" using assms two_powi_pos[of "- 1022"] by (cases "x = 0") auto
  have "x = 0 \<or> 2 powi (- 1022) \<le> \<bar>x\<bar>" using assms x by auto
  then have "\<bar>fl64 x - x\<bar> \<le> \<bar>x\<bar> / 10 ^ 15" by (rule fl64_error_coarse)
  then have "x - fl64 x \<le> \<bar>x\<bar> / 10 ^ 15" by (simp only: abs_le_iff) simp
  then have "x - x / 10 ^ 15 \<le> fl64 x" using x by simp
  moreover have "x * (999 / 1000) \<le> x - x / 10 ^ 15" using x by simp
  ultimately show ?thesis by linarith
qed

section \<open>Properties of \<^verbatim>\<open>np.linspace\<close>\<close>

lemma length_linspace [simp]: "length (linspace a b n) = n"
  by (simp add: linspace_def Let_def)

lemma linspace_nth_last: "1 < n \<Longrightarrow> linspace a b n ! (n - 1) = fl64 b"
  by (simp add: linspace_def Let_def)

lemma linspace_nth:
  assumes "i < n - 1"
  shows "linspace a b n ! i =
           fl64 ((if fl64 (fl64 (fl64 b - fl64 a) / of_nat (n - 1)) = 0
                  then fl64 (fl64 (of_nat i / of_nat (n - 1)) * fl64 (fl64 b - fl64 a))
                  else fl64 (of_nat i * fl64 (fl64 (fl64 b - fl64 a) / of_nat (n - 1))))
                 + fl64 a)"
proof -
  have "1 < n" "i < n" "i \<noteq> n - 1" using assms by simp_all
  then show ?thesis by (simp add: linspace_def Let_def)
qed

lemma linspace_first:
  assumes "1 < n" "is_f64 a"
  shows "linspace a b n ! 0 = a"
proof -
  have "0 < n - 1" using assms(1) by simp
  then show ?thesis using assms(2) by (simp add: linspace_nth is_f64_def)
qed

lemma linspace_nonempty: "1 < n \<Longrightarrow> linspace a b n \<noteq> []"
  by (auto dest!: arg_cong[where f = length])

lemma hd_linspace: "1 < n \<Longrightarrow> is_f64 a \<Longrightarrow> hd (linspace a b n) = a"
  using linspace_first[of n a b] linspace_nonempty[of n a b] by (simp add: hd_conv_nth)

lemma last_linspace: "1 < n \<Longrightarrow> is_f64 b \<Longrightarrow> last (linspace a b n) = b"
  using linspace_nth_last[of n a b] linspace_nonempty[of n a b]
  by (simp add: last_conv_nth is_f64_def)

lemma linspace_constant:
  assumes "1 < n" "fl64 a = fl64 b"
  shows "linspace a b n = replicate n (fl64 a)"
proof (rule nth_equalityI)
  show "length (linspace a b n) = length (replicate n (fl64 a))" by simp
next
  fix i assume "i < length (linspace a b n)"
  then have i: "i < n" by simp
  show "linspace a b n ! i = replicate n (fl64 a) ! i"
  proof (cases "i < n - 1")
    case True
    then show ?thesis using i assms(2) by (simp add: linspace_nth)
  next
    case False
    then have "i = n - 1" using i by simp
    then show ?thesis using assms linspace_nth_last[of n a b] by simp
  qed
qed

text \<open>The ramp of \<open>linspace\<close> between two float64 values, 100 points.\<close>

lemma two_powi_1015: "(2::rat) powi (- 1015) = 128 * 2 powi (- 1022)"
proof -
  have "(2::rat) powi (- 1022 + 7) = 2 powi (- 1022) * 2 powi 7"
    by (rule power_int_add) simp
  then show ?thesis by simp
qed

lemma ramp_facts:
  assumes wide: "2 powi (- 1015) \<le> B - A" and i: "i \<le> 98"
  defines "step \<equiv> fl64 (fl64 (B - A) / 99)"
  shows "2 powi (- 1022) \<le> step"
    and "0 < step"
    and "0 \<le> fl64 (of_nat i * step)"
    and "fl64 (of_nat i * step) \<le> (B - A) * (994 / 1000)"
    and "(B - A) / 100 \<le> step"
proof -
  define tn :: rat where "tn = 2 powi (- 1022)"
  define D where "D = B - A"
  define delta where "delta = fl64 D"
  have tn: "0 < tn" by (simp add: tn_def)
  have Dw: "128 * tn \<le> D" using wide by (simp only: two_powi_1015 tn_def D_def)
  have D0: "0 < D" "tn \<le> D" using Dw tn by linarith+
  have Dn: "D = 0 \<or> 2 powi (- 1022) \<le> D" using D0(2) by (simp only: tn_def) simp
  have d: "delta \<le> D * (1001 / 1000)" unfolding delta_def using Dn by (rule fl64_upper_coarse)
  have dl: "D * (999 / 1000) \<le> delta" unfolding delta_def using Dn by (rule fl64_lower_coarse)
  have "tn \<le> delta / 99" using dl Dw tn by linarith
  then have qn: "delta / 99 = 0 \<or> 2 powi (- 1022) \<le> delta / 99" by (simp only: tn_def) simp
  have st: "step = fl64 (delta / 99)" by (simp add: step_def delta_def D_def)
  have "2 powi (- 1022) \<le> delta / 99" using \<open>tn \<le> delta / 99\<close> by (simp only: tn_def)
  then show sn: "2 powi (- 1022) \<le> step" unfolding st by (rule fl64_normal)
  then have stn: "tn \<le> step" by (simp only: tn_def)
  then show s0: "0 < step" using tn by linarith
  show "0 \<le> fl64 (of_nat i * step)" using s0 by (intro fl64_nonneg) simp
  have s: "step \<le> delta / 99 * (1001 / 1000)" unfolding st using qn by (rule fl64_upper_coarse)
  have sl: "delta / 99 * (999 / 1000) \<le> step" unfolding st using qn by (rule fl64_lower_coarse)
  define t where "t = of_nat i * step"
  have "(of_nat i :: rat) \<le> 98" using i by simp
  then have t98: "t \<le> 98 * step" unfolding t_def using s0 by (intro mult_right_mono) simp_all
  have "t = 0 \<or> tn \<le> t"
  proof (cases "i = 0")
    case True then show ?thesis by (simp add: t_def)
  next
    case False
    then have "(1::rat) \<le> of_nat i" by simp
    then have "1 * step \<le> of_nat i * step" using s0 by (intro mult_right_mono) simp_all
    then show ?thesis using stn by (simp add: t_def)
  qed
  then have "t = 0 \<or> 2 powi (- 1022) \<le> t" by (simp only: tn_def)
  then have "fl64 t \<le> t * (1001 / 1000)" by (rule fl64_upper_coarse)
  then have f1: "1000 * fl64 t \<le> 1001 * (98 * step)" using t98 by linarith
  have s1: "99000 * step \<le> 1001 * delta" using s by simp
  have d1: "1000 * delta \<le> 1001 * D" using d by simp
  have "fl64 t \<le> D * (994 / 1000)" using f1 s1 d1 D0(1) by linarith
  then show "fl64 (of_nat i * step) \<le> (B - A) * (994 / 1000)" by (simp only: t_def D_def)
  have "D / 100 \<le> step" using dl sl D0(1) by linarith
  then show "(B - A) / 100 \<le> step" by (simp only: D_def)
qed

lemma linspace_nth_ramp:
  assumes "2 powi (- 1015) \<le> fl64 b - fl64 a" "i < 99"
  shows "linspace a b 100 ! i =
           fl64 (fl64 (of_nat i * fl64 (fl64 (fl64 b - fl64 a) / 99)) + fl64 a)"
proof -
  have "0 < fl64 (fl64 (fl64 b - fl64 a) / 99)"
    using ramp_facts(2)[OF assms(1), of 0] by simp
  moreover have "i < 100 - 1" using assms(2) by simp
  ultimately show ?thesis by (simp add: linspace_nth)
qed

lemma linspace_below_stop:
  assumes "2 powi (- 1015) \<le> fl64 b - fl64 a" "i < 99"
  shows "linspace a b 100 ! i \<le> fl64 b"
proof -
  have i: "i \<le> 98" using assms(2) by simp
  have "fl64 (of_nat i * fl64 (fl64 (fl64 b - fl64 a) / 99)) \<le> (fl64 b - fl64 a) * (994 / 1000)"
    by (rule ramp_facts(4)[OF assms(1) i])
  moreover have "0 < fl64 b - fl64 a" using assms(1) two_powi_pos[of "- 1015"] by linarith
  ultimately have "fl64 (of_nat i * fl64 (fl64 (fl64 b - fl64 a) / 99)) + fl64 a \<le> fl64 b"
    by simp
  then have "fl64 (fl64 (of_nat i * fl64 (fl64 (fl64 b - fl64 a) / 99)) + fl64 a) \<le> fl64 (fl64 b)"
    by (rule fl64_mono)
  then show ?thesis unfolding linspace_nth_ramp[OF assms] by simp
qed

lemma linspace_mono_inner:
  assumes "2 powi (- 1015) \<le> fl64 b - fl64 a" "i \<le> j" "j < 99"
  shows "linspace a b 100 ! i \<le> linspace a b 100 ! j"
proof -
  define step where "step = fl64 (fl64 (fl64 b - fl64 a) / 99)"
  have s0: "0 < step" unfolding step_def using ramp_facts(2)[OF assms(1), of 0] by simp
  have i: "i < 99" using assms(2,3) by simp
  have "(of_nat i :: rat) * step \<le> of_nat j * step"
    using assms(2) s0 by (intro mult_right_mono) simp_all
  then have "fl64 (of_nat i * step) + fl64 a \<le> fl64 (of_nat j * step) + fl64 a"
    using fl64_mono by simp
  then have "fl64 (fl64 (of_nat i * step) + fl64 a) \<le> fl64 (fl64 (of_nat j * step) + fl64 a)"
    by (rule fl64_mono)
  then show ?thesis
    unfolding linspace_nth_ramp[OF assms(1) i] linspace_nth_ramp[OF assms(1,3)] step_def .
qed

lemma sorted_replicate: "sorted (replicate n (x::rat))"
  by (simp add: sorted_iff_nth_mono)

lemma sorted_linspace:
  assumes "fl64 a = fl64 b \<or> 2 powi (- 1015) \<le> fl64 b - fl64 a"
  shows "sorted (linspace a b 100)"
proof (cases "fl64 a = fl64 b")
  case True
  then show ?thesis by (simp add: linspace_constant sorted_replicate)
next
  case False
  then have w: "2 powi (- 1015) \<le> fl64 b - fl64 a" using assms by simp
  have "linspace a b 100 ! i \<le> linspace a b 100 ! j" if "i \<le> j" "j < 100" for i j
  proof (cases "j < 99")
    case True
    then show ?thesis using linspace_mono_inner[OF w that(1)] by simp
  next
    case F: False
    then have j: "j = 99" using that(2) by simp
    show ?thesis
    proof (cases "i = j")
      case True then show ?thesis by simp
    next
      case F2: False
      then have "i < 99" using that(1) j by simp
      then have "linspace a b 100 ! i \<le> fl64 b" by (rule linspace_below_stop[OF w])
      then show ?thesis unfolding j using linspace_nth_last[of 100 a b] by simp
    qed
  qed
  then show ?thesis by (simp add: sorted_iff_nth_mono)
qed

lemma decreasing_somewhere_iff: "decreasing_somewhere es \<longleftrightarrow> \<not> sorted_wrt (\<le>) es"
proof (induction es rule: decreasing_somewhere.induct)
  case (1 a b es)
  then show ?case by (metis decreasing_somewhere.simps(1) sorted2 not_less)
qed simp_all

lemma between_abs:
  fixes z :: rat
  assumes "A \<le> z" "z \<le> B"
  shows "\<bar>z\<bar> \<le> max \<bar>A\<bar> \<bar>B\<bar>"
  using assms by (simp add: abs_le_iff le_max_iff_disj) linarith

lemma fl64_within:
  assumes "\<bar>z\<bar> \<le> M" "2 powi (- 1022) \<le> M"
  shows "fl64 z \<le> z + M / 10 ^ 15" "z - M / 10 ^ 15 \<le> fl64 z"
proof -
  define tn :: rat where "tn = 2 powi (- 1022)"
  define w' where "w' = M / 10 ^ 15"
  have tn: "0 < tn" "tn \<le> M" using assms(2) by (simp_all add: tn_def)
  have e: "\<bar>fl64 z - z\<bar> \<le> w'"
  proof (cases "z = 0 \<or> 2 powi (- 1022) \<le> \<bar>z\<bar>")
    case True
    have "\<bar>z\<bar> / 10 ^ 15 \<le> w'" unfolding w'_def using assms(1) by (intro divide_right_mono) simp_all
    then show ?thesis using fl64_error_coarse[OF True] by linarith
  next
    case False
    then have z: "z \<noteq> 0" "\<bar>z\<bar> < 2 powi (- 1022)" by simp_all
    have "\<bar>fl64 \<bar>z\<bar> - \<bar>z\<bar>\<bar> \<le> 2 powi (- 1075)"
      using z by (intro fl64_error_sub_pos) simp_all
    moreover have "\<bar>fl64 \<bar>z\<bar> - \<bar>z\<bar>\<bar> = \<bar>fl64 z - z\<bar>"
      by (cases "0 \<le> z") (simp_all add: fl64_minus abs_minus_commute)
    moreover have "(2::rat) powi (- 1022 - 53) = 2 powi (- 1022) / 2 powi 53"
      by (rule power_int_diff) simp
    then have "(2::rat) powi (- 1075) = tn / 2 ^ 53" by (simp add: tn_def)
    moreover have "tn / 2 ^ 53 \<le> tn / 10 ^ 15" using tn(1) by (intro divide_left_mono) simp_all
    moreover have "tn / 10 ^ 15 \<le> w'" unfolding w'_def using tn(2) by (intro divide_right_mono) simp_all
    ultimately show ?thesis by linarith
  qed
  then have "fl64 z \<le> z + w'" "z - w' \<le> fl64 z" by linarith+
  then show "fl64 z \<le> z + M / 10 ^ 15" "z - M / 10 ^ 15 \<le> fl64 z"
    by (simp_all only: w'_def)
qed

lemma linspace_strict_consecutive:
  assumes fA: "is_f64 A" and fB: "is_f64 B" and AB: "2 powi (- 1015) \<le> B - A"
    and wide: "max \<bar>A\<bar> \<bar>B\<bar> \<le> 10 ^ 12 * (B - A)"
    and j: "Suc i < 100"
  shows "linspace A B 100 ! i < linspace A B 100 ! Suc i"
proof -
  define step where "step = fl64 (fl64 (B - A) / 99)"
  define D where "D = B - A"
  define M where "M = max \<bar>A\<bar> \<bar>B\<bar>"
  define tn :: rat where "tn = 2 powi (- 1022)"
  have tn: "0 < tn" by (simp add: tn_def)
  have Dw: "128 * tn \<le> D" using AB by (simp only: two_powi_1015 tn_def D_def)
  have D0: "0 < D" using Dw tn by linarith
  have MD: "M \<le> 10 ^ 12 * D" using wide by (simp add: M_def D_def)
  have "D \<le> 2 * M" unfolding D_def M_def by (simp add: max_def abs_if) 
  then have "tn \<le> M" using Dw tn by linarith
  then have Mn: "2 powi (- 1022) \<le> M" by (simp only: tn_def)
  have fx: "fl64 A = A" "fl64 B = B" using fA fB by (simp_all add: is_f64_def)
  have AB': "2 powi (- 1015) \<le> fl64 B - fl64 A" using AB by (simp only: fx)
  have i98: "i \<le> 98" using j by simp
  have sn: "tn \<le> step" and s0: "0 < step" and sl: "D / 100 \<le> step"
    using ramp_facts(1,2,5)[OF AB i98] by (simp_all only: step_def D_def tn_def)
  have nth: "linspace A B 100 ! k = fl64 (fl64 (of_nat k * step) + A)" if "k \<le> 98" for k
  proof -
    have "k < 99" using that by simp
    then show ?thesis using linspace_nth_ramp[OF AB'] by (simp only: fx step_def)
  qed
  define t where "t = fl64 (of_nat i * step)"
  define z where "z = t + A"
  have t0: "0 \<le> t" and tD: "t \<le> D * (994 / 1000)"
    using ramp_facts(3,4)[OF AB i98] by (simp_all only: t_def step_def D_def)
  have zA: "A \<le> z" "z \<le> B" using t0 tD D0 by (simp_all add: z_def D_def)
  have zM: "\<bar>z\<bar> \<le> M" unfolding M_def using zA by (rule between_abs)
  have yi: "linspace A B 100 ! i = fl64 z" using nth[OF i98] by (simp add: z_def t_def)
  have up: "fl64 z \<le> z + M / 10 ^ 15" using zM Mn by (rule fl64_within)
  show ?thesis
  proof (cases "Suc i = 99")
    case True
    have "linspace A B 100 ! Suc i = B"
      using linspace_nth_last[of 100 A B] True fx by simp
    moreover have "fl64 z < B" using up tD MD D0 by (simp add: z_def D_def)
    ultimately show ?thesis using yi by simp
  next
    case False
    then have k98: "Suc i \<le> 98" using j by simp
    define p where "p = of_nat i * step"
    define t' where "t' = fl64 (p + step)"
    define z' where "z' = t' + A"
    have pp: "of_nat (Suc i) * step = p + step" by (simp add: p_def algebra_simps)
    have p0: "0 \<le> p" using s0 by (simp add: p_def)
    have "(of_nat i :: rat) \<le> 97" using k98 by simp
    then have p97: "p \<le> 97 * step" unfolding p_def using s0 by (intro mult_right_mono) simp_all
    have "0 \<le> fl64 (of_nat (Suc i) * step)" "fl64 (of_nat (Suc i) * step) \<le> D * (994 / 1000)"
      using ramp_facts(3,4)[OF AB k98] by (simp_all only: step_def D_def)
    then have t'0: "0 \<le> t'" and t'D: "t' \<le> D * (994 / 1000)"
      by (simp_all only: t'_def pp)
    have z'A: "A \<le> z'" "z' \<le> B" using t'0 t'D D0 by (simp_all add: z'_def D_def)
    have z'M: "\<bar>z'\<bar> \<le> M" unfolding M_def using z'A by (rule between_abs)
    have lo': "z' - M / 10 ^ 15 \<le> fl64 z'" using z'M Mn by (rule fl64_within)
    have pn: "p = 0 \<or> 2 powi (- 1022) \<le> \<bar>p\<bar>"
    proof (cases "i = 0")
      case True then show ?thesis by (simp add: p_def)
    next
      case F: False
      then have "(1::rat) \<le> of_nat i" by simp
      then have "1 * step \<le> of_nat i * step" using s0 by (intro mult_right_mono) simp_all
      then have "tn \<le> \<bar>p\<bar>" using sn p0 by (simp add: p_def)
      then show ?thesis by (simp only: tn_def) simp
    qed
    define w1 where "w1 = p / 10 ^ 15"
    have "\<bar>fl64 p - p\<bar> \<le> \<bar>p\<bar> / 10 ^ 15" using pn by (rule fl64_error_coarse)
    then have "\<bar>fl64 p - p\<bar> \<le> w1" using p0 by (simp only: w1_def abs_of_nonneg)
    then have "fl64 p \<le> p + w1" by linarith
    then have "fl64 p \<le> p + p / 10 ^ 15" by (simp only: w1_def)
    then have tp: "t \<le> p + p / 10 ^ 15" by (simp only: t_def p_def)
    have "tn \<le> \<bar>p + step\<bar>" using p0 sn s0 by simp
    then have "p + step = 0 \<or> 2 powi (- 1022) \<le> \<bar>p + step\<bar>" by (simp only: tn_def) simp
    then have "\<bar>fl64 (p + step) - (p + step)\<bar> \<le> \<bar>p + step\<bar> / 10 ^ 15" by (rule fl64_error_coarse)
    moreover define w2 where "w2 = (p + step) / 10 ^ 15"
    moreover have "0 \<le> p + step" using p0 s0 by simp
    ultimately have "\<bar>fl64 (p + step) - (p + step)\<bar> \<le> w2" by (simp only: abs_of_nonneg)
    then have "(p + step) - w2 \<le> fl64 (p + step)" by linarith
    then have "(p + step) - (p + step) / 10 ^ 15 \<le> fl64 (p + step)" by (simp only: w2_def)
    then have tp': "(p + step) - (p + step) / 10 ^ 15 \<le> t'" by (simp only: t'_def)
    have yk: "linspace A B 100 ! Suc i = fl64 z'"
      using nth[OF k98] by (simp only: z'_def t'_def pp)
    have "p / 10 ^ 15 \<le> step / 4" using p97 s0 by simp
    then have a1: "t \<le> p + step / 4" using tp by linarith
    have "(p + step) / 10 ^ 15 \<le> step / 4" using p97 s0 by simp
    then have a2: "p + step - step / 4 \<le> t'" using tp' by linarith
    have "M / 10 ^ 15 \<le> D / 1000" using MD by simp
    also have "\<dots> \<le> step / 10" using sl by simp
    finally have a3: "M / 10 ^ 15 \<le> step / 10" .
    define w where "w = M / 10 ^ 15"
    have "t + w < t' - w" using a1 a2 a3 s0 unfolding w_def[symmetric] by linarith
    then have "z + M / 10 ^ 15 < z' - M / 10 ^ 15"
      unfolding z_def z'_def w_def by simp
    then have "fl64 z < fl64 z'" using up lo' by linarith
    then show ?thesis using yi yk by simp
  qed
qed

lemma linspace_strict:
  assumes fA: "is_f64 A" and fB: "is_f64 B" and AB: "2 powi (- 1015) \<le> B - A"
    and wide: "max \<bar>A\<bar> \<bar>B\<bar> \<le> 10 ^ 12 * (B - A)"
  shows "sorted_wrt (<) (linspace A B 100)"
proof -
  have "2 powi (- 1015) \<le> fl64 B - fl64 A" using AB fA fB by (simp only: is_f64_def)
  then have srt: "sorted (linspace A B 100)" by (intro sorted_linspace disjI2)
  have "linspace A B 100 ! i < linspace A B 100 ! j" if ij: "i < j" and j: "j < 100" for i j
  proof -
    obtain k where k: "j = Suc k" by (cases j) (use ij in simp_all)
    have "linspace A B 100 ! i \<le> linspace A B 100 ! k"
      using srt ij j k by (simp add: sorted_iff_nth_mono)
    moreover have "linspace A B 100 ! k < linspace A B 100 ! Suc k"
      using j k by (intro linspace_strict_consecutive[OF fA fB AB wide]) simp
    ultimately show ?thesis using k by simp
  qed
  then show ?thesis by (simp add: sorted_wrt_iff_nth_less)
qed

section \<open>Evaluating roundings, and properties of the scaler and the figure\<close>

lemma rhe_near:
  assumes "\<bar>m - of_int n\<bar> < 1 / 2"
  shows "round_half_even m = n"
proof -
  have "\<bar>of_int (round_half_even m) - m\<bar> \<le> 1 / 2" by (rule rhe_error)
  then have "\<bar>(of_int (round_half_even m) :: rat) - of_int n\<bar> < 1" using assms by linarith
  then have "\<bar>(of_int (round_half_even m - n) :: rat)\<bar> < 1" by simp
  then have "\<bar>round_half_even m - n\<bar> < 1"
    by (metis of_int_abs of_int_less_iff of_int_1)
  then show ?thesis by simp
qed

lemma rhe_tie:
  assumes "\<bar>m - of_int n\<bar> = 1 / 2" "even n"
  shows "round_half_even m = n"
proof -
  consider "m = of_int n + 1 / 2" | "m = of_int n - 1 / 2" using assms(1) by (auto simp: abs_if split: if_splits)
  then show ?thesis
  proof cases
    case 1
    then have "\<lfloor>m\<rfloor> = n" by linarith
    then show ?thesis using 1 assms(2) by (simp add: rhe_alt)
  next
    case 2
    then have f: "\<lfloor>m\<rfloor> = n - 1" by linarith
    have "odd (n - 1)" using assms(2) by simp
    then show ?thesis using 2 f by (simp add: rhe_alt)
  qed
qed

lemma fl64_near:
  assumes "0 < x" "2 powi e \<le> x" "x < 2 powi (e + 1)" "- 1022 \<le> e"
    and "\<bar>x / 2 powi (e - 52) - of_int n\<bar> < 1 / 2"
  shows "fl64 x = of_int n * 2 powi (e - 52)"
proof -
  have "ilog2 x = e" using assms(1-3) by (rule ilog2_unique)
  then have "max (ilog2 x) (- 1022) = e" using assms(4) by simp
  then show ?thesis using fl64_pos_eq[OF assms(1)] rhe_near[OF assms(5)] by simp
qed

lemma fl64_tie:
  assumes "0 < x" "2 powi e \<le> x" "x < 2 powi (e + 1)" "- 1022 \<le> e"
    and "\<bar>x / 2 powi (e - 52) - of_int n\<bar> = 1 / 2" "even n"
  shows "fl64 x = of_int n * 2 powi (e - 52)"
proof -
  have "ilog2 x = e" using assms(1-3) by (rule ilog2_unique)
  then have "max (ilog2 x) (- 1022) = e" using assms(4) by simp
  then show ?thesis using fl64_pos_eq[OF assms(1)] rhe_tie[OF assms(5,6)] by simp
qed

lemma fl64_near_subnormal:
  assumes "0 < x" "x < 2 powi (- 1022)"
    and "\<bar>x / 2 powi (- 1074) - of_int n\<bar> < 1 / 2"
  shows "fl64 x = of_int n * 2 powi (- 1074)"
proof -
  have "max (ilog2 x) (- 1022) = - 1022" using ilog2_subnormal[OF assms(1,2)] by simp
  then have "fl64 x = of_int (round_half_even (x / 2 powi (- 1022 - 52))) * 2 powi (- 1022 - 52)"
    using fl64_pos_eq[OF assms(1)] by (simp only:)
  moreover have "(- 1022 - 52 :: int) = - 1074" by simp
  ultimately show ?thesis using rhe_near[OF assms(3)] by (simp only:)
qed

lemma fl64_third: "fl64 (1 / 3) = 6004799503160661 / 18014398509481984"
  using fl64_near[where x = "1 / 3" and e = "-2" and n = 6004799503160661] by simp

lemma fl64_three_thirds: "fl64 (18014398509481983 / 18014398509481984) = 1"
  using fl64_tie[where x = "18014398509481983 / 18014398509481984" and e = "-1"
      and n = 9007199254740992] by simp

lemma fl64_two_thirds: "fl64 (12009599006321323 / 18014398509481984) = 3002399751580331 / 4503599627370496"
  using fl64_tie[where x = "12009599006321323 / 18014398509481984" and e = "-1"
      and n = 6004799503160662] by simp

lemma fl64_fifth: "fl64 (1 / 5) = 3602879701896397 / 18014398509481984"
  using fl64_near[where x = "1 / 5" and e = "-3" and n = 7205759403792794] by simp

lemma fl64_six_fifths: "fl64 (10808639105689191 / 9007199254740992) = 1351079888211149 / 1125899906842624"
  using fl64_tie[where x = "10808639105689191 / 9007199254740992" and e = 0
      and n = 5404319552844596] by simp

lemma fl64_above_one: "fl64 (18014398509481987 / 18014398509481984) = 4503599627370497 / 4503599627370496"
  using fl64_near[where x = "18014398509481987 / 18014398509481984" and e = 0
      and n = 4503599627370497] by simp

lemma is_f64_numeral: "numeral k < (2::int) ^ 53 \<Longrightarrow> is_f64 (numeral k)"
  using f64_of_int[of "numeral k"] by simp

lemma is_f64_zero [simp]: "is_f64 0"
  by (simp add: is_f64_def)

lemma is_f64_one [simp]: "is_f64 1"
  using f64_of_int[of 1] by simp

lemma fl64_numeral: "numeral k < (2::int) ^ 53 \<Longrightarrow> fl64 (numeral k) = numeral k"
  using is_f64_numeral[of k] by (simp add: is_f64_def)

lemma fl64_one [simp]: "fl64 1 = 1"
  using is_f64_one by (simp add: is_f64_def)

lemma not_overflows_zero [simp]: "\<not> overflows 0"
  by (simp add: overflows_def)

lemma not_overflows_numeral: "numeral k < (2::int) ^ 53 \<Longrightarrow> \<not> overflows (numeral k)"
proof -
  assume a: "numeral k < (2::int) ^ 53"
  then have a1: "(of_int (numeral k) :: rat) < 2 ^ 53" by (rule of_int_less_2p)
  have a2: "(2::rat) ^ 53 \<le> 2 ^ 1024" by (rule power_increasing) simp_all
  have "(of_int (numeral k) :: rat) < 2 ^ 1024" using a1 a2 by (rule less_le_trans)
  then have "(numeral k :: rat) < 2 ^ 1024" by (simp only: of_int_numeral)
  then have "\<not> 2 ^ 1024 \<le> \<bar>numeral k :: rat\<bar>" by (simp only: abs_numeral not_le)
  then show ?thesis unfolding overflows_def fl64_numeral[OF a] .
qed

lemma overflows_bound: "\<not> overflows x \<Longrightarrow> \<bar>x\<bar> < 2 ^ 1024"
proof (rule ccontr)
  assume n: "\<not> overflows x" and "\<not> \<bar>x\<bar> < 2 ^ 1024"
  then have "(2::rat) powi 1024 \<le> \<bar>x\<bar>" by simp
  then have "fl64 (2 powi 1024) \<le> fl64 \<bar>x\<bar>" by (rule fl64_mono)
  moreover have "fl64 ((2::rat) powi 1024) = 2 powi 1024" by (rule fl64_two_powi) simp
  moreover have "fl64 \<bar>x\<bar> = \<bar>fl64 x\<bar>"
    using fl64_nonneg[of x] fl64_nonpos[of x] by (cases "0 \<le> x") (simp_all add: fl64_minus abs_if)
  ultimately have "2 ^ 1024 \<le> \<bar>fl64 x\<bar>" by simp
  then show False using n by (simp add: overflows_def)
qed

lemma map_fl64_f64: "list_all is_f64 xs \<Longrightarrow> map fl64 xs = xs"
  by (induction xs) (simp_all add: is_f64_def)

lemma check_array_f64: "f64_samples X \<Longrightarrow> check_array (Numeric X) = Inr X"
  by (simp add: check_array_def f64_samples_def map_fl64_f64)

lemma fit_f64: "f64_samples X \<Longrightarrow> fit (Numeric X) = Inr (partial_fit X)"
  by (simp add: fit_def check_array_f64)

lemma transform_f64:
  "f64_samples X \<Longrightarrow>
     transform sc (Numeric X) = Inr (map (\<lambda>x. fl64 (fl64 (x * scale' sc) + min' sc)) X)"
  by (simp add: transform_def check_array_f64)

lemma scale_nonneg: "0 \<le> scale' (partial_fit X)"
proof -
  have "0 \<le> fl64 (1 / r)" if "handle_zeros_in_scale d = Finite r" for d r
  proof -
    have "0 < r" using that
      by (cases d) (auto simp: handle_zeros_in_scale_def eps_def split: if_splits)
    then show ?thesis by (intro fl64_nonneg) simp
  qed
  then show ?thesis by (simp add: partial_fit_def Let_def split: extended.splits)
qed

lemma min'_partial_fit:
  "min' (partial_fit X) = - fl64 (Min (set X) * scale' (partial_fit X))"
  by (simp add: partial_fit_def Let_def fl64_minus)

lemma scaled_minimum:
  "fl64 (fl64 (Min (set X) * scale' (partial_fit X)) + min' (partial_fit X)) = 0"
  by (simp add: min'_partial_fit)

lemma scaled_nonneg:
  assumes "Min (set X) \<le> x"
  shows "0 \<le> fl64 (fl64 (x * scale' (partial_fit X)) + min' (partial_fit X))"
proof -
  have "Min (set X) * scale' (partial_fit X) \<le> x * scale' (partial_fit X)"
    using assms scale_nonneg[of X] by (intro mult_right_mono) simp_all
  then have "fl64 (Min (set X) * scale' (partial_fit X)) \<le> fl64 (x * scale' (partial_fit X))"
    by (rule fl64_mono)
  then show ?thesis unfolding min'_partial_fit by (intro fl64_nonneg) simp
qed

lemma f64_samples_append: "f64_samples m \<Longrightarrow> f64_samples s \<Longrightarrow> f64_samples (m @ s)"
  by (simp add: f64_samples_def)

lemma normalise_f64:
  assumes "f64_samples m" "f64_samples s"
  shows "normalise (Numeric m) (Numeric s) =
    Inr \<lparr>df_mutex = m, df_sem = s, the_scaler = partial_fit (m @ s),
         scaled_mutex = map (\<lambda>x. fl64 (fl64 (x * scale' (partial_fit (m @ s))) + min' (partial_fit (m @ s)))) m,
         scaled_sem = map (\<lambda>x. fl64 (fl64 (x * scale' (partial_fit (m @ s))) + min' (partial_fit (m @ s)))) s\<rparr>"
  using assms
  by (simp add: normalise_def Let_def concat_frames_def fit_f64 f64_samples_append transform_f64)

lemma hist_sorted:
  "sorted b \<Longrightarrow> hist x b a l c =
     Inr \<lparr>data = x, edges = b, counts = diff (search_sorted_inclusive x b), alpha = a, label = l, color = c\<rparr>"
  by (simp add: hist_def histogram_def decreasing_somewhere_iff)

lemma is_f64_min_limit:
  "f64_samples (df_mutex v) \<Longrightarrow> f64_samples (df_sem v) \<Longrightarrow> is_f64 (min_limit v)"
proof -
  assume a: "f64_samples (df_mutex v)" "f64_samples (df_sem v)"
  have "Min (set xs) \<in> set xs" if "f64_samples xs" for xs :: "rat list"
    using that by (intro Min_in) (simp_all add: f64_samples_def)
  then have "is_f64 (Min (set xs))" if "f64_samples xs" for xs
    using that by (simp add: f64_samples_def list_all_iff)
  then show ?thesis using a by (simp add: min_limit_def min_def)
qed

lemma is_f64_max_limit:
  "f64_samples (df_mutex v) \<Longrightarrow> f64_samples (df_sem v) \<Longrightarrow> is_f64 (max_limit v)"
proof -
  assume a: "f64_samples (df_mutex v)" "f64_samples (df_sem v)"
  have "Max (set xs) \<in> set xs" if "f64_samples xs" for xs :: "rat list"
    using that by (intro Max_in) (simp_all add: f64_samples_def)
  then have "is_f64 (Max (set xs))" if "f64_samples xs" for xs
    using that by (simp add: f64_samples_def list_all_iff)
  then show ?thesis using a by (simp add: max_limit_def max_def)
qed

lemma min_limit_append:
  "df_mutex v \<noteq> [] \<Longrightarrow> df_sem v \<noteq> [] \<Longrightarrow> min_limit v = Min (set (df_mutex v @ df_sem v))"
  by (simp add: min_limit_def Min_Un)

lemma max_limit_append:
  "df_mutex v \<noteq> [] \<Longrightarrow> df_sem v \<noteq> [] \<Longrightarrow> max_limit v = Max (set (df_mutex v @ df_sem v))"
  by (simp add: max_limit_def Max_Un)

lemma limits_ordered:
  assumes "df_mutex v \<noteq> []" "df_sem v \<noteq> []"
  shows "min_limit v \<le> max_limit v"
proof -
  have "Min (set (df_mutex v)) \<le> Max (set (df_mutex v))" using assms(1) by simp
  then show ?thesis unfolding min_limit_def max_limit_def by (simp add: min_le_iff_disj le_max_iff_disj)
qed

lemma sorted_bins:
  assumes "f64_samples (df_mutex v)" "f64_samples (df_sem v)"
    and "max_limit v = min_limit v \<or> 2 powi (- 1015) \<le> max_limit v - min_limit v"
  shows "sorted (bins v)"
proof -
  have "fl64 (min_limit v) = min_limit v" "fl64 (max_limit v) = max_limit v"
    using is_f64_min_limit[OF assms(1,2)] is_f64_max_limit[OF assms(1,2)]
    by (simp_all add: is_f64_def)
  then have "fl64 (min_limit v) = fl64 (max_limit v) \<or>
             2 powi (- 1015) \<le> fl64 (max_limit v) - fl64 (min_limit v)"
    using assms(3) by auto
  then show ?thesis unfolding bins_def by (rule sorted_linspace)
qed

lemma plot_sorted:
  assumes "sorted (bins v)" "\<not> linspace_overflows (min_limit v) (max_limit v)"
  shows "plot v = Inr \<lparr>figsize = (12, 7),
       plots = [\<lparr>data = df_mutex v, edges = bins v,
                  counts = diff (search_sorted_inclusive (df_mutex v) (bins v)),
                  alpha = 7 / 10, label = ''Mutex'', color = ''skyblue''\<rparr>,
                \<lparr>data = df_sem v, edges = bins v,
                  counts = diff (search_sorted_inclusive (df_sem v) (bins v)),
                  alpha = 7 / 10, label = ''Sem'' @ a_acute @ ''foro'', color = ''salmon''\<rparr>],
       title = ''Distribuci'' @ o_acute @ ''n de Latencias en Idle (Mutex vs Sem'' @ a_acute @ ''foro)'',
       xlabel = ''Latencia (ns)'', ylabel = ''Frecuencia'', legend = True,
       grid = (True, ''--'', 6 / 10)\<rparr>"
  using assms by (simp add: plot_def hist_sorted)

section \<open>Whole runs\<close>

lemma fs_of_mutex [simp]: "fs_of a b mutex_csv = a"
  by (simp add: fs_of_def)

lemma fs_of_sem [simp]: "fs_of a b sem_csv = b"
  by (simp add: fs_of_def mutex_csv_def sem_csv_def)

lemma script_numeric:
  assumes "f64_samples m" "f64_samples s"
    and "ordinary_range (Min (set (m @ s))) (Max (set (m @ s)))"
    and "fs mutex_csv = Contents (Numeric m)" "fs sem_csv = Contents (Numeric s)"
  shows "\<exists>v fig. normalise (Numeric m) (Numeric s) = Inr v \<and> plot v = Inr fig \<and>
           script fs = \<lparr>stdout = [], ending = Shown v (bins v) fig\<rparr> \<and>
           df_mutex v = m \<and> df_sem v = s \<and> sorted (bins v) \<and>
           map data (plots fig) = [m, s] \<and> map edges (plots fig) = [bins v, bins v] \<and>
           map counts (plots fig) = [diff (search_sorted_inclusive m (bins v)),
                                     diff (search_sorted_inclusive s (bins v))]"
proof -
  define v where "v = \<lparr>df_mutex = m, df_sem = s, the_scaler = partial_fit (m @ s),
         scaled_mutex = map (\<lambda>x. fl64 (fl64 (x * scale' (partial_fit (m @ s))) + min' (partial_fit (m @ s)))) m,
         scaled_sem = map (\<lambda>x. fl64 (fl64 (x * scale' (partial_fit (m @ s))) + min' (partial_fit (m @ s)))) s\<rparr>"
  have v: "normalise (Numeric m) (Numeric s) = Inr v" "df_mutex v = m" "df_sem v = s"
    using normalise_f64[OF assms(1,2)] by (simp_all add: v_def)
  have ne: "df_mutex v \<noteq> []" "df_sem v \<noteq> []" using assms(1,2) v by (simp_all add: f64_samples_def)
  have l: "min_limit v = Min (set (m @ s))" "max_limit v = Max (set (m @ s))"
    using min_limit_append[OF ne] max_limit_append[OF ne] v by simp_all
  have r: "\<not> linspace_overflows (min_limit v) (max_limit v)"
    "max_limit v = min_limit v \<or> 2 powi (- 1015) \<le> max_limit v - min_limit v"
    using assms(3) unfolding ordinary_range_def l by simp_all
  have srt: "sorted (bins v)" using assms(1,2) r(2) v(2,3) by (intro sorted_bins) simp_all
  note p = plot_sorted[OF srt r(1)]
  define fig where "fig = \<lparr>figsize = (12, 7),
       plots = [\<lparr>data = df_mutex v, edges = bins v,
                  counts = diff (search_sorted_inclusive (df_mutex v) (bins v)),
                  alpha = 7 / 10, label = ''Mutex'', color = ''skyblue''\<rparr>,
                \<lparr>data = df_sem v, edges = bins v,
                  counts = diff (search_sorted_inclusive (df_sem v) (bins v)),
                  alpha = 7 / 10, label = ''Sem'' @ a_acute @ ''foro'', color = ''salmon''\<rparr>],
       title = ''Distribuci'' @ o_acute @ ''n de Latencias en Idle (Mutex vs Sem'' @ a_acute @ ''foro)'',
       xlabel = ''Latencia (ns)'', ylabel = ''Frecuencia'', legend = True,
       grid = (True, ''--'', 6 / 10)\<rparr>"
  have fig: "plot v = Inr fig" using p by (simp only: fig_def)
  have "script fs = \<lparr>stdout = [], ending = Shown v (bins v) fig\<rparr>"
    using assms(4,5) v(1) fig by (simp add: script_def read_csv_def)
  moreover have "map data (plots fig) = [m, s]" "map edges (plots fig) = [bins v, bins v]"
    "map counts (plots fig) = [diff (search_sorted_inclusive m (bins v)),
                               diff (search_sorted_inclusive s (bins v))]"
    using v(2,3) by (simp_all add: fig_def)
  ultimately show ?thesis using v fig srt by (intro exI[of _ v] exI[of _ fig]) simp
qed

lemma f64_samples_example [simp]:
  "f64_samples [100, 150, 120]" "f64_samples [200, 210]"
  "f64_samples [10, 20, 30]" "f64_samples [5, 15, 25]"
  "f64_samples [1, 2, 3]" "f64_samples [2, 3, 4]"
  "f64_samples [5]" "f64_samples [1]" "f64_samples [6]"
  by (simp_all add: f64_samples_def is_f64_numeral)

lemma small_le_one: "(2::rat) powi (- 1015) \<le> 1"
  using two_powi_mono[of "- 1015" 0] by simp

lemma ordinary_rangeI:
  assumes "fl64 a = a" "fl64 b = b" "fl64 (b - a) = b - a" "1 \<le> b - a" "b - a < 2 ^ 53"
  shows "ordinary_range a b"
proof -
  have "(2::rat) ^ 53 \<le> 2 ^ 1024" by (rule power_increasing) simp_all
  then have "b - a < 2 ^ 1024" using assms(5) by (rule less_le_trans[rotated])
  moreover have "\<bar>b - a\<bar> = b - a" using assms(4) by simp
  ultimately have "\<not> 2 ^ 1024 \<le> \<bar>b - a\<bar>" by (simp only: not_le)
  then have "\<not> linspace_overflows a b"
    unfolding linspace_overflows_def overflows_def assms(1,2,3) .
  moreover have "2 powi (- 1015) \<le> b - a" using small_le_one assms(4) by linarith
  ultimately show ?thesis unfolding ordinary_range_def by (intro conjI disjI2)
qed

lemma ordinary_range_refl: "ordinary_range c c"
  by (simp add: ordinary_range_def linspace_overflows_def)

section \<open>Further properties of the runs\<close>

lemma normalise_Inr:
  "normalise dm ds = Inr v \<Longrightarrow> \<not> is_text dm \<Longrightarrow> \<not> is_text ds \<Longrightarrow>
     dm = Numeric (df_mutex v) \<and> ds = Numeric (df_sem v)"
  by (cases dm; cases ds)
     (auto simp: normalise_def Let_def concat_frames_def fit_def transform_def check_array_def
           split: sum.splits if_splits)

lemma script_shown:
  assumes "ending (script fs) = Shown v e fig"
  shows "fs mutex_csv = Contents (Numeric (df_mutex v)) \<and> fs sem_csv = Contents (Numeric (df_sem v)) \<and>
         normalise (Numeric (df_mutex v)) (Numeric (df_sem v)) = Inr v \<and> plot v = Inr fig \<and> e = bins v"
proof -
  obtain dm where dm: "read_csv fs mutex_csv = Inr dm"
    using assms by (cases "read_csv fs mutex_csv") (auto simp: script_def raise_def split: exn.splits)
  obtain ds where ds: "read_csv fs sem_csv = Inr ds"
    using assms dm by (cases "read_csv fs sem_csv") (auto simp: script_def raise_def split: exn.splits)
  obtain v' where v': "normalise dm ds = Inr v'"
    using assms dm ds by (cases "normalise dm ds") (auto simp: script_def uncaught_def)
  have nt: "\<not> is_text dm" "\<not> is_text ds"
    using assms dm ds v' by (auto simp: script_def uncaught_def split: if_splits)
  obtain fig' where fig': "plot v' = Inr fig'"
    using assms dm ds v' nt by (cases "plot v'") (auto simp: script_def uncaught_def)
  have eq: "v' = v" "fig' = fig" "e = bins v'"
    using assms dm ds v' fig' nt by (auto simp: script_def)
  have "dm = Numeric (df_mutex v)" "ds = Numeric (df_sem v)"
    using normalise_Inr[OF v' nt] eq by simp_all
  moreover have "fs mutex_csv = Contents dm" "fs sem_csv = Contents ds"
    using dm ds by (auto simp: read_csv_def split: file_state.splits)
  ultimately show ?thesis using v' fig' eq by simp
qed

lemma not_increasing_replicate: "1 < n \<Longrightarrow> \<not> sorted_wrt (<) (replicate n (x::rat))"
proof -
  assume "1 < n"
  then have "n = Suc (Suc (n - 2))" by simp
  then have "replicate n x = x # x # replicate (n - 2) x" by (metis replicate_Suc)
  then show ?thesis by simp
qed

lemma diff_zeros: "diff (0 # replicate k 0 @ [c]) = replicate k 0 @ [c]"
  by (induction k) simp_all

lemma butlast_replicate_Suc: "butlast (replicate (Suc k) c) = replicate k c"
  by (induction k) simp_all

lemma counts_constant:
  assumes "\<forall>x\<in>set xs. x = c" "n = Suc (Suc k)" "list_all is_f64 xs"
  shows "diff (search_sorted_inclusive xs (replicate n c)) = replicate k 0 @ [length xs]"
proof -
  have cv: "map fl64 xs = xs" using assms(3) by (rule map_fl64_f64)
  have f1: "filter (\<lambda>x. x < c) xs = []" using assms(1) by (auto simp: filter_empty_conv)
  have f2: "filter (\<lambda>x. x \<le> c) xs = xs" using assms(1) by (auto simp: filter_id_conv)
  have b: "butlast (replicate n c) = replicate (Suc k) c"
    unfolding assms(2) by (rule butlast_replicate_Suc)
  have "drop (length (replicate n c) - 1) (replicate n c) = replicate (n - (n - 1)) c"
    by (simp only: drop_replicate length_replicate)
  also have "n - (n - 1) = Suc 0" using assms(2) by simp
  finally have d: "drop (length (replicate n c) - 1) (replicate n c) = [c]" by simp
  have "search_sorted_inclusive xs (replicate n c) =
          map (\<lambda>e. length (filter (\<lambda>x. x < e) xs)) (replicate (Suc k) c) @
          map (\<lambda>e. length (filter (\<lambda>x. x \<le> e) xs)) [c]"
    unfolding search_sorted_inclusive_def Let_def cv b d ..
  also have "\<dots> = 0 # replicate k 0 @ [length xs]" by (simp add: f1 f2)
  finally show ?thesis by (simp only: diff_zeros)
qed

lemma bins_constant:
  assumes "f64_samples (df_mutex v)" "f64_samples (df_sem v)"
    and "\<forall>x\<in>set (df_mutex v @ df_sem v). x = c"
  shows "bins v = replicate 100 c" "min_limit v = c" "max_limit v = c"
proof -
  have ne: "df_mutex v \<noteq> []" "df_sem v \<noteq> []" using assms(1,2) by (simp_all add: f64_samples_def)
  have "Min (set (df_mutex v @ df_sem v)) \<in> set (df_mutex v @ df_sem v)"
    using ne by (intro Min_in) simp_all
  then show lo: "min_limit v = c" using assms(3) min_limit_append[OF ne] by simp
  have "Max (set (df_mutex v @ df_sem v)) \<in> set (df_mutex v @ df_sem v)"
    using ne by (intro Max_in) simp_all
  then show hi: "max_limit v = c" using assms(3) max_limit_append[OF ne] by simp
  have "is_f64 c" using is_f64_min_limit[OF assms(1,2)] lo by simp
  then show "bins v = replicate 100 c"
    unfolding bins_def lo hi by (simp add: linspace_constant is_f64_def)
qed

lemma Min_Max_constant:
  assumes "xs \<noteq> []" "\<forall>x\<in>set xs. x = (c::rat)"
  shows "Min (set xs) = c" "Max (set xs) = c"
proof -
  have "Min (set xs) \<in> set xs" using assms(1) by (intro Min_in) simp_all
  then show "Min (set xs) = c" using assms(2) by simp
  have "Max (set xs) \<in> set xs" using assms(1) by (intro Max_in) simp_all
  then show "Max (set xs) = c" using assms(2) by simp
qed

lemma ordinary_examples [simp]:
  "ordinary_range 100 210" "ordinary_range 5 30" "ordinary_range 1 4" "ordinary_range 1 6"
  by (rule ordinary_rangeI; simp add: fl64_numeral)+

text \<open>The two largest powers of two: their difference is not a float64.\<close>

lemma fl64_huge: "fl64 (2 ^ 1023) = 2 ^ 1023" "fl64 (- (2 ^ 1023)) = - (2 ^ 1023)"
proof -
  have "fl64 ((2::rat) powi 1023) = 2 powi 1023" by (rule fl64_two_powi) simp
  then show a: "fl64 (2 ^ 1023) = 2 ^ 1023" by simp
  show "fl64 (- (2 ^ 1023)) = - (2 ^ 1023)" unfolding fl64_minus a ..
qed

lemma f64_samples_huge: "f64_samples [- (2 ^ 1023)]" "f64_samples [2 ^ 1023]"
  using fl64_huge by (simp_all add: f64_samples_def is_f64_def)

lemma overflows_huge: "linspace_overflows (- (2 ^ 1023)) (2 ^ 1023)"
proof -
  have "fl64 ((2::rat) powi 1024) = 2 powi 1024" by (rule fl64_two_powi) simp
  then have "fl64 (2 ^ 1024) = (2::rat) ^ 1024" by simp
  moreover have "(2::rat) ^ 1023 - - (2 ^ 1023) = 2 ^ 1024" by simp
  ultimately show ?thesis
    unfolding linspace_overflows_def overflows_def fl64_huge by simp
qed

lemma overflow_run:
  "\<exists>v. normalise (Numeric [- (2 ^ 1023)]) (Numeric [2 ^ 1023]) = Inr v \<and>
     plot v = Inl ValueError \<and>
     script (fs_of (Contents (Numeric [- (2 ^ 1023)])) (Contents (Numeric [2 ^ 1023]))) =
       \<lparr>stdout = [], ending = Uncaught ValueError\<rparr>"
proof -
  obtain v where v: "normalise (Numeric [- (2 ^ 1023)]) (Numeric [2 ^ 1023]) = Inr v"
    "df_mutex v = [- (2 ^ 1023)]" "df_sem v = [2 ^ 1023]"
    using normalise_f64[OF f64_samples_huge] by simp
  have "min_limit v = - (2 ^ 1023)" "max_limit v = 2 ^ 1023"
    using v(2,3) by (simp_all add: min_limit_def max_limit_def)
  then have p: "plot v = Inl ValueError" using overflows_huge by (simp add: plot_def)
  then have "script (fs_of (Contents (Numeric [- (2 ^ 1023)])) (Contents (Numeric [2 ^ 1023]))) =
       \<lparr>stdout = [], ending = Uncaught ValueError\<rparr>"
    using v(1) by (simp add: script_def read_csv_def uncaught_def)
  then show ?thesis using v(1) p by (intro exI[of _ v]) simp
qed

lemma linspace_hd_last:
  assumes "1 < n"
  shows "hd (linspace a b n) = fl64 a" "last (linspace a b n) = fl64 b"
proof -
  have "0 < n - 1" using assms by simp
  then have "linspace a b n ! 0 = fl64 a" by (simp add: linspace_nth)
  then show "hd (linspace a b n) = fl64 a"
    using linspace_nonempty[OF assms, of a b] by (simp add: hd_conv_nth)
  show "last (linspace a b n) = fl64 b"
    using linspace_nth_last[OF assms, of a b] linspace_nonempty[OF assms, of a b]
    by (simp add: last_conv_nth)
qed

lemma mono_fl64: "mono fl64"
  by (rule monoI) (rule fl64_mono)

lemma Min_map_fl64: "xs \<noteq> [] \<Longrightarrow> Min (set (map fl64 xs)) = fl64 (Min (set xs))"
  using mono_Min_commute[OF mono_fl64, of "set xs"] by simp

lemma Max_map_fl64: "xs \<noteq> [] \<Longrightarrow> Max (set (map fl64 xs)) = fl64 (Max (set xs))"
  using mono_Max_commute[OF mono_fl64, of "set xs"] by simp

lemma normalise_numeric:
  assumes "normalise (Numeric m) (Numeric s) = Inr v"
  shows "m \<noteq> []" "s \<noteq> []" "df_mutex v = m" "df_sem v = s"
    "the_scaler v = partial_fit (map fl64 (m @ s))"
  using assms
  by (auto simp: normalise_def Let_def concat_frames_def fit_def transform_def check_array_def
           split: sum.splits if_splits)

lemma fl64_min: "fl64 (min a b) = min (fl64 a) (fl64 b)"
  by (rule min_of_mono[OF mono_fl64, symmetric])

lemma fl64_max: "fl64 (max a b) = max (fl64 a) (fl64 b)"
  by (rule max_of_mono[OF mono_fl64, symmetric])

lemma fl64_beyond_53: "fl64 9007199254740993 = 9007199254740992"
  using fl64_tie[where x = 9007199254740993 and e = 53 and n = 4503599627370496] by simp

text \<open>The counts of a histogram whose edges span the data add up to the number of samples.\<close>

lemma sum_list_diff: "sorted cs \<Longrightarrow> cs \<noteq> [] \<Longrightarrow> sum_list (diff cs) = last cs - hd cs"
proof (induction cs rule: diff.induct)
  case (1 a b cs)
  have ab: "a \<le> b" using 1(2) by simp
  have "b \<le> last (b # cs)" using 1(2) by (cases cs) (auto simp: last_in_set)
  moreover have "sum_list (diff (b # cs)) = last (b # cs) - b" using 1 by simp
  ultimately show ?case using ab by simp
qed simp_all

lemma filter_length_mono:
  "(\<And>x. P x \<Longrightarrow> Q x) \<Longrightarrow> length (filter P xs) \<le> length (filter Q xs)"
  by (induction xs) auto

lemma sorted_le_last:
  assumes "sorted (v :: rat list)" "x \<in> set v"
  shows "x \<le> last v"
proof -
  obtain i where i: "i < length v" "v ! i = x" using assms(2) by (auto simp: in_set_conv_nth)
  then have "v ! i \<le> v ! (length v - 1)" using assms(1) by (intro sorted_nth_mono) simp_all
  then show ?thesis using i by (cases "v = []") (simp_all add: last_conv_nth)
qed

lemma search_sorted_inclusive_nonempty:
  assumes "v \<noteq> []"
  shows "search_sorted_inclusive a v =
           map (\<lambda>e. length (filter (\<lambda>x. x < e) (map fl64 a))) (butlast v) @
           [length (filter (\<lambda>x. x \<le> last v) (map fl64 a))]"
proof -
  have "drop (length v - 1) v = [last v]"
    using assms by (induction v) (auto simp: drop_Cons' )
  then show ?thesis by (simp add: search_sorted_inclusive_def Let_def)
qed

lemma sorted_search:
  assumes "sorted v"
  shows "sorted (search_sorted_inclusive a v)"
proof (cases "v = []")
  case True
  then show ?thesis by (simp add: search_sorted_inclusive_def)
next
  case False
  have b: "sorted (butlast v)" using assms by (rule sorted_butlast)
  have "sorted (map (\<lambda>e. length (filter (\<lambda>x. x < e) (map fl64 a))) (butlast v))"
    unfolding sorted_map using b
    by (rule sorted_wrt_mono_rel[rotated]) (auto intro!: filter_length_mono)
  moreover have "length (filter (\<lambda>x. x < e) (map fl64 a)) \<le> length (filter (\<lambda>x. x \<le> last v) (map fl64 a))"
    if "e \<in> set (butlast v)" for e
  proof -
    have "e \<le> last v" using that assms by (intro sorted_le_last) (auto dest: in_set_butlastD)
    then show ?thesis by (intro filter_length_mono) simp
  qed
  ultimately show ?thesis
    unfolding search_sorted_inclusive_nonempty[OF False] by (auto simp: sorted_append)
qed

lemma counts_total:
  assumes "sorted v" "2 \<le> length v" "list_all is_f64 a"
    and "\<forall>x\<in>set a. hd v \<le> x \<and> x \<le> last v"
  shows "sum_list (diff (search_sorted_inclusive a v)) = length a"
proof -
  have ne: "v \<noteq> []" using assms(2) by auto
  have cv: "map fl64 a = a" using assms(3) by (rule map_fl64_f64)
  have b: "butlast v \<noteq> []" using assms(2) by (cases v; cases "tl v") auto
  have hb: "hd (butlast v) = hd v" using assms(2) by (cases v; cases "tl v") auto
  have f1: "filter (\<lambda>x. x < hd v) a = []" using assms(4) by (auto simp: filter_empty_conv)
  have f2: "filter (\<lambda>x. x \<le> last v) a = a" using assms(4) by (auto simp: filter_id_conv)
  have "hd (search_sorted_inclusive a v) = 0"
    unfolding search_sorted_inclusive_nonempty[OF ne] cv using b by (simp add: hd_append hd_map hb f1)
  moreover have "last (search_sorted_inclusive a v) = length a"
    unfolding search_sorted_inclusive_nonempty[OF ne] cv by (simp add: f2)
  moreover have "search_sorted_inclusive a v \<noteq> []"
    unfolding search_sorted_inclusive_nonempty[OF ne] by simp
  ultimately show ?thesis using sum_list_diff[OF sorted_search[OF assms(1)], of a] by simp
qed

lemma bins_span:
  assumes "f64_samples (df_mutex v)" "f64_samples (df_sem v)"
  shows "hd (bins v) = min_limit v" "last (bins v) = max_limit v"
    "\<forall>x\<in>set (df_mutex v @ df_sem v). min_limit v \<le> x \<and> x \<le> max_limit v"
proof -
  show "hd (bins v) = min_limit v"
    unfolding bins_def using is_f64_min_limit[OF assms] by (intro hd_linspace) simp_all
  show "last (bins v) = max_limit v"
    unfolding bins_def using is_f64_max_limit[OF assms] by (intro last_linspace) simp_all
  have ne: "df_mutex v \<noteq> []" "df_sem v \<noteq> []" using assms by (simp_all add: f64_samples_def)
  show "\<forall>x\<in>set (df_mutex v @ df_sem v). min_limit v \<le> x \<and> x \<le> max_limit v"
    unfolding min_limit_append[OF ne] max_limit_append[OF ne] by simp
qed

lemma counts_of_bins:
  assumes "f64_samples (df_mutex v)" "f64_samples (df_sem v)" "sorted (bins v)"
  shows "sum_list (diff (search_sorted_inclusive (df_mutex v) (bins v))) = length (df_mutex v)"
    "sum_list (diff (search_sorted_inclusive (df_sem v) (bins v))) = length (df_sem v)"
proof -
  have l: "2 \<le> length (bins v)" by (simp add: bins_def)
  have f: "list_all is_f64 (df_mutex v)" "list_all is_f64 (df_sem v)"
    using assms(1,2) by (simp_all add: f64_samples_def)
  note s = bins_span[OF assms(1,2)]
  show "sum_list (diff (search_sorted_inclusive (df_mutex v) (bins v))) = length (df_mutex v)"
    using s(3) by (intro counts_total[OF assms(3) l f(1)]) (simp add: s(1,2))
  show "sum_list (diff (search_sorted_inclusive (df_sem v) (bins v))) = length (df_sem v)"
    using s(3) by (intro counts_total[OF assms(3) l f(2)]) (simp add: s(1,2))
qed

lemma take_two: "2 \<le> length xs \<Longrightarrow> take 2 xs = [xs ! 0, xs ! 1]"
  by (cases xs; cases "tl xs") auto

lemma fl64_ulp: "fl64 (1 / 4503599627370496) = 1 / 4503599627370496"
  using f64_int_scaled[of 1 "-52"] by (simp add: is_f64_def)

lemma fl64_next_after_one: "is_f64 (4503599627370497 / 4503599627370496)"
  using f64_int_scaled[of 4503599627370497 "-52"] by simp

lemma fl64_tiny_step:
  "fl64 (1 / 445856363109679104) = 5822835881852763 / 2596148429267413814265248164610048"
  using fl64_near[where x = "1 / 445856363109679104" and e = "-59" and n = 5822835881852763] by simp

lemma fl64_one_plus_tiny:
  "fl64 (2596148429267413820088084046462811 / 2596148429267413814265248164610048) = 1"
  using fl64_near[where x = "2596148429267413820088084046462811 / 2596148429267413814265248164610048"
      and e = 0 and n = 4503599627370496] by simp

text \<open>A range of 50 times the smallest subnormal: the step rounds up to one quantum.\<close>

lemma smallest_subnormal_pos [simp]: "0 < smallest_subnormal"
  by (simp add: smallest_subnormal_def)

lemma subnormal_multiple:
  "\<bar>n\<bar> < 2 ^ 53 \<Longrightarrow> fl64 (of_int n * smallest_subnormal) = of_int n * smallest_subnormal"
  using f64_int_scaled[of n "- 1074"] by (simp add: is_f64_def smallest_subnormal_def)

lemma subnormal_50: "fl64 (50 * smallest_subnormal) = 50 * smallest_subnormal"
  using subnormal_multiple[of 50] by simp

lemma subnormal_98: "fl64 (98 * smallest_subnormal) = 98 * smallest_subnormal"
  using subnormal_multiple[of 98] by simp

lemma subnormal_step: "fl64 (50 * smallest_subnormal / 99) = smallest_subnormal"
proof -
  define q :: rat where "q = 2 powi (- 1074)"
  have q: "0 < q" by (simp add: q_def)
  have "(2::rat) powi (- 1074 + 52) = 2 powi (- 1074) * 2 powi 52"
    by (rule power_int_add) simp
  then have tn: "(2::rat) powi (- 1022) = q * 2 ^ 52" by (simp add: q_def)
  have 1: "0 < 50 * q / 99" using q by simp
  have "50 * q / 99 < q * 1" using q by simp
  also have "\<dots> \<le> q * 2 ^ 52" using q by (intro mult_left_mono) simp_all
  finally have 2: "50 * q / 99 < 2 powi (- 1022)" by (simp only: tn)
  have "50 * q / 99 / q = 50 / 99" using q by simp
  then have "\<bar>50 * q / 99 / q - of_int 1\<bar> < 1 / 2" by simp
  then have 3: "\<bar>50 * q / 99 / 2 powi (- 1074) - of_int 1\<bar> < 1 / 2"
    by (simp only: q_def)
  have "fl64 (50 * q / 99) = of_int 1 * 2 powi (- 1074)"
    using 1 2 3 by (rule fl64_near_subnormal)
  then show ?thesis by (simp add: smallest_subnormal_def q_def)
qed

lemma f64_samples_subnormal: "f64_samples [0]" "f64_samples [50 * smallest_subnormal]"
  using subnormal_50 by (simp_all add: f64_samples_def is_f64_def)

lemma underflow_edges:
  "\<exists>v. normalise (Numeric [0]) (Numeric [50 * smallest_subnormal]) = Inr v \<and>
     df_mutex v = [0] \<and> df_sem v = [50 * smallest_subnormal] \<and>
     min_limit v = 0 \<and> max_limit v = 50 * smallest_subnormal \<and>
     bins v ! 98 = 98 * smallest_subnormal \<and> bins v ! 99 = 50 * smallest_subnormal"
proof -
  obtain v where v: "normalise (Numeric [0]) (Numeric [50 * smallest_subnormal]) = Inr v"
    "df_mutex v = [0]" "df_sem v = [50 * smallest_subnormal]"
    using normalise_f64[OF f64_samples_subnormal] by simp
  have l: "min_limit v = 0" "max_limit v = 50 * smallest_subnormal"
    using v(2,3) by (simp_all add: min_limit_def max_limit_def)
  have "(98::nat) < 100 - 1" by simp
  then have "linspace 0 (50 * smallest_subnormal) 100 ! 98 = 98 * smallest_subnormal"
    unfolding linspace_nth[OF \<open>98 < 100 - 1\<close>]
    by (simp add: subnormal_50 subnormal_step subnormal_98)
  then have b98: "bins v ! 98 = 98 * smallest_subnormal" by (simp add: bins_def l)
  have "linspace 0 (50 * smallest_subnormal) 100 ! (100 - 1) = fl64 (50 * smallest_subnormal)"
    by (rule linspace_nth_last) simp
  then have b99: "bins v ! 99 = 50 * smallest_subnormal" by (simp add: bins_def l subnormal_50)
  show ?thesis using v l b98 b99 by (intro exI[of _ v]) simp
qed

text \<open>The scaler on the examples.\<close>

lemma third_fix: "fl64 (6004799503160661 / 18014398509481984) = 6004799503160661 / 18014398509481984"
  using fl64_idem[of "1 / 3"] by (simp only: fl64_third)

lemma fifth_fix: "fl64 (3602879701896397 / 18014398509481984) = 3602879701896397 / 18014398509481984"
  using fl64_idem[of "1 / 5"] by (simp only: fl64_fifth)

lemma two_thirds_fix: "fl64 (6004799503160661 / 9007199254740992) = 6004799503160661 / 9007199254740992"
  using f64_int_scaled[of 6004799503160661 "-53"] by (simp add: is_f64_def)

lemma four_thirds_fix: "fl64 (6004799503160661 / 4503599627370496) = 6004799503160661 / 4503599627370496"
  using f64_int_scaled[of 6004799503160661 "-52"] by (simp add: is_f64_def)

lemma partial_fit_1_4:
  "partial_fit ([1, 2, 3] @ [2, 3, 4]) =
     \<lparr>data_min' = 1, data_max' = 4, data_range' = Finite 3,
      scale' = 6004799503160661 / 18014398509481984,
      min' = - (6004799503160661 / 18014398509481984)\<rparr>"
  by (simp add: partial_fit_def Let_def handle_zeros_in_scale_def eps_def fl64_numeral
        not_overflows_numeral fl64_third third_fix fl64_minus)

lemma partial_fit_1_6:
  "partial_fit ([1] @ [6]) =
     \<lparr>data_min' = 1, data_max' = 6, data_range' = Finite 5,
      scale' = 3602879701896397 / 18014398509481984,
      min' = - (3602879701896397 / 18014398509481984)\<rparr>"
  by (simp add: partial_fit_def Let_def handle_zeros_in_scale_def eps_def fl64_numeral
        not_overflows_numeral fl64_fifth fifth_fix fl64_minus)

lemma scaled_example:
  "normalise (Numeric [1, 2, 3]) (Numeric [2, 3, 4]) =
     Inr \<lparr>df_mutex = [1, 2, 3], df_sem = [2, 3, 4],
          the_scaler = \<lparr>data_min' = 1, data_max' = 4, data_range' = Finite 3,
                         scale' = 6004799503160661 / 18014398509481984,
                         min' = - (6004799503160661 / 18014398509481984)\<rparr>,
          scaled_mutex = [0, 6004799503160661 / 18014398509481984, 3002399751580331 / 4503599627370496],
          scaled_sem = [6004799503160661 / 18014398509481984, 3002399751580331 / 4503599627370496, 1]\<rparr>"
  unfolding normalise_f64[OF f64_samples_example(5,6)] partial_fit_1_4
  by (simp add: third_fix two_thirds_fix four_thirds_fix fl64_three_thirds fl64_two_thirds)

lemma scaled_1_6:
  "normalise (Numeric [1]) (Numeric [6]) =
     Inr \<lparr>df_mutex = [1], df_sem = [6],
          the_scaler = \<lparr>data_min' = 1, data_max' = 6, data_range' = Finite 5,
                         scale' = 3602879701896397 / 18014398509481984,
                         min' = - (3602879701896397 / 18014398509481984)\<rparr>,
          scaled_mutex = [0],
          scaled_sem = [4503599627370497 / 4503599627370496]\<rparr>"
  unfolding normalise_f64[OF f64_samples_example(8,9)] partial_fit_1_6
  by (simp add: fifth_fix fl64_six_fifths fl64_above_one)

text \<open>A range below \<^verbatim>\<open>10 * eps\<close>: the samples 0 and \<open>2\<^sup>-\<^sup>5\<^sup>0\<close>.\<close>

lemma fl64_2m50: "fl64 (1 / 1125899906842624) = 1 / 1125899906842624"
  using f64_int_scaled[of 1 "-50"] by (simp add: is_f64_def)

lemma scaled_tiny_range:
  "normalise (Numeric [0]) (Numeric [1 / 1125899906842624]) =
     Inr \<lparr>df_mutex = [0], df_sem = [1 / 1125899906842624],
          the_scaler = \<lparr>data_min' = 0, data_max' = 1 / 1125899906842624,
                         data_range' = Finite (1 / 1125899906842624), scale' = 1, min' = 0\<rparr>,
          scaled_mutex = [0],
          scaled_sem = [1 / 1125899906842624]\<rparr>"
proof -
  have f: "f64_samples [0]" "f64_samples [1 / 1125899906842624]"
    using fl64_2m50 by (simp_all add: f64_samples_def is_f64_def)
  have "\<not> overflows (1 / 1125899906842624)"
    unfolding overflows_def fl64_2m50 by simp
  then have "partial_fit ([0] @ [1 / 1125899906842624]) =
      \<lparr>data_min' = 0, data_max' = 1 / 1125899906842624,
       data_range' = Finite (1 / 1125899906842624), scale' = 1, min' = 0\<rparr>"
    by (simp add: partial_fit_def Let_def handle_zeros_in_scale_def eps_def fl64_2m50)
  then show ?thesis unfolding normalise_f64[OF f] by (simp add: fl64_2m50)
qed

text \<open>The three regimes of the fitted scaler.\<close>

lemma partial_fit_range:
  "data_range' (partial_fit X) = Finite r \<longleftrightarrow>
     \<not> overflows (Max (set X) - Min (set X)) \<and> r = fl64 (Max (set X) - Min (set X))"
  "data_range' (partial_fit X) = Infinity \<longleftrightarrow> overflows (Max (set X) - Min (set X))"
  by (auto simp: partial_fit_def Let_def)

lemma partial_fit_wide:
  assumes "data_range' (partial_fit X) = Finite r" "10 * eps \<le> r"
  shows "scale' (partial_fit X) = fl64 (1 / fl64 (Max (set X) - Min (set X)))"
  using assms by (auto simp: partial_fit_def Let_def handle_zeros_in_scale_def split: if_splits)

lemma partial_fit_narrow:
  assumes "data_range' (partial_fit X) = Finite r" "r < 10 * eps"
  shows "scale' (partial_fit X) = 1"
  using assms by (auto simp: partial_fit_def Let_def handle_zeros_in_scale_def split: if_splits)

lemma partial_fit_infinite:
  assumes "data_range' (partial_fit X) = Infinity"
  shows "scale' (partial_fit X) = 0" "min' (partial_fit X) = 0"
  using assms by (auto simp: partial_fit_def Let_def handle_zeros_in_scale_def split: if_splits)

lemma tiny_facts:
  "(2::rat) powi (- 1075) \<le> 1 / 10 ^ 15"
  "(2::rat) ^ 1024 * 2 powi (- 1075) \<le> 1 / 10 ^ 15"
  "(2::rat) powi (- 1022) < 10 * eps"
proof -
  have a: "(2::rat) powi (- 51) \<le> 1 / 10 ^ 15" by (simp add: power_int_minus)
  have "(2::rat) powi (- 1075) \<le> 2 powi (- 51)" by (rule two_powi_mono) simp
  then show "(2::rat) powi (- 1075) \<le> 1 / 10 ^ 15" using a by (rule order_trans)
  have "(2::rat) powi (1024 + - 1075) = 2 powi 1024 * 2 powi (- 1075)"
    by (rule power_int_add) simp
  then have "(2::rat) ^ 1024 * 2 powi (- 1075) = 2 powi (- 51)" by simp
  then show "(2::rat) ^ 1024 * 2 powi (- 1075) \<le> 1 / 10 ^ 15" using a by (simp only:)
  have "(2::rat) powi (- 1022) \<le> 2 powi (- 52)" by (rule two_powi_mono) simp
  moreover have "(2::rat) powi (- 52) < 10 * eps" by (simp add: eps_def power_int_minus)
  ultimately show "(2::rat) powi (- 1022) < 10 * eps" by (rule le_less_trans)
qed

lemma scale_near_inverse:
  assumes ov: "\<not> overflows D" and wide: "10 * eps \<le> fl64 D"
  defines "s \<equiv> fl64 (1 / fl64 D)"
  shows "0 < D" "0 \<le> s" "1 - 4 / 10 ^ 15 \<le> D * s" "D * s \<le> 1 + 4 / 10 ^ 15"
proof -
  define c :: rat where "c = 1 / 10 ^ 15"
  define tau :: rat where "tau = 2 powi (- 1075)"
  define delta where "delta = fl64 D"
  define r where "r = 1 / delta"
  have e0: "(0::rat) < 10 * eps" by (simp add: eps_def)
  have d0: "0 < delta" using wide e0 by (simp add: delta_def)
  show D0: "0 < D"
  proof (rule ccontr)
    assume "\<not> 0 < D"
    then have "fl64 D \<le> 0" by (intro fl64_nonpos) simp
    then show False using d0 by (simp add: delta_def)
  qed
  have Dn: "2 powi (- 1022) \<le> D"
  proof (rule ccontr)
    assume "\<not> 2 powi (- 1022) \<le> D"
    then have "D \<le> 2 powi (- 1022)" by simp
    then have "fl64 D \<le> fl64 (2 powi (- 1022))" by (rule fl64_mono)
    moreover have "fl64 (2 powi (- 1022)) = 2 powi (- 1022)" by (rule fl64_two_powi) simp
    ultimately show False using wide tiny_facts(3) by linarith
  qed
  have "D = 0 \<or> 2 powi (- 1022) \<le> \<bar>D\<bar>" using Dn D0 by simp
  then have "\<bar>fl64 D - D\<bar> \<le> \<bar>D\<bar> / 10 ^ 15" by (rule fl64_error_coarse)
  then have ed: "\<bar>delta - D\<bar> \<le> D * c" using D0 by (simp add: delta_def c_def)
  have r0: "0 < r" using d0 by (simp add: r_def)
  have dr: "delta * r = 1" using d0 by (simp add: r_def)
  show s0: "0 \<le> s" unfolding s_def delta_def[symmetric] r_def[symmetric]
    using r0 by (intro fl64_nonneg) simp
  have "\<bar>fl64 r - r\<bar> \<le> \<bar>r\<bar> / 2 ^ 53 + 2 powi (- 1075)" by (rule fl64_error_abs)
  moreover have "\<bar>r\<bar> / 2 ^ 53 \<le> \<bar>r\<bar> / 10 ^ 15" by (intro divide_left_mono) simp_all
  ultimately have es: "\<bar>s - r\<bar> \<le> r * c + tau"
    using r0 by (simp add: s_def delta_def r_def c_def tau_def)
  have "\<bar>D\<bar> < 2 ^ 1024" using ov by (rule overflows_bound)
  then have "D * tau \<le> 2 ^ 1024 * tau" using D0 by (intro mult_right_mono) (simp_all add: tau_def)
  then have Dt: "D * tau \<le> c" using tiny_facts(2) by (simp add: tau_def c_def)
  define P where "P = D * r"
  define V where "V = D * s"
  have "(D - D * c) * r \<le> delta * r" using ed r0 by (intro mult_right_mono) (simp_all add: abs_le_iff)
  then have p1: "P - P * c \<le> 1" unfolding dr by (simp add: P_def algebra_simps)
  have "delta * r \<le> (D + D * c) * r" using ed r0 by (intro mult_right_mono) (simp_all add: abs_le_iff)
  then have p2: "1 \<le> P + P * c" unfolding dr by (simp add: P_def algebra_simps)
  have "\<bar>V - P\<bar> = D * \<bar>s - r\<bar>" using D0 by (simp add: V_def P_def abs_mult right_diff_distrib[symmetric])
  also have "\<dots> \<le> D * (r * c + tau)" using es D0 by (intro mult_left_mono) simp_all
  also have "\<dots> = P * c + D * tau" by (simp add: P_def algebra_simps)
  finally have ev: "\<bar>V - P\<bar> \<le> P * c + c" using Dt by linarith
  define Pc where "Pc = P * c"
  have pc: "Pc * 10 ^ 15 = P" by (simp add: Pc_def c_def)
  have c: "c * 10 ^ 15 = 1" by (simp add: c_def)
  have p1': "P - Pc \<le> 1" and p2': "1 \<le> P + Pc" and ev': "\<bar>V - P\<bar> \<le> Pc + c"
    using p1 p2 ev by (simp_all add: Pc_def)
  have "1 - 4 * c \<le> V \<and> V \<le> 1 + 4 * c" using p1' p2' ev' pc c by (simp add: abs_le_iff)
  then show "1 - 4 / 10 ^ 15 \<le> D * s" "D * s \<le> 1 + 4 / 10 ^ 15"
    by (simp_all add: V_def c_def)
qed

lemma fl64_error_lit: "\<bar>fl64 x - x\<bar> \<le> \<bar>x\<bar> / 1000000000000000 + 2 powi (- 1075)"
proof -
  have "\<bar>x\<bar> / 2 ^ 53 \<le> \<bar>x\<bar> / 1000000000000000" by (intro divide_left_mono) simp_all
  then show ?thesis using fl64_error_abs[of x] by linarith
qed

lemma scaled_error:
  fixes s :: rat
  assumes s0: "0 \<le> s" and Vl: "1 - 4 / 10 ^ 15 \<le> D * s" and Vu: "D * s \<le> 1 + 4 / 10 ^ 15"
    and D: "D = dmax - dmin" "0 < D"
    and K: "max \<bar>dmin\<bar> \<bar>dmax\<bar> \<le> K * D"
    and x: "dmin \<le> x" "x \<le> dmax"
  defines "y \<equiv> fl64 (fl64 (x * s) - fl64 (dmin * s))"
  shows "y \<le> 1 + (3 * K + 9) / 10 ^ 15"
    and "x = dmax \<Longrightarrow> 1 - (3 * K + 9) / 10 ^ 15 \<le> y"
proof -
  define tau :: rat where "tau = 2 powi (- 1075)"
  define M where "M = max \<bar>dmin\<bar> \<bar>dmax\<bar>"
  define V where "V = D * s"
  define W where "W = M * s"
  define a where "a = dmin * s"
  define b where "b = x * s"
  define fa where "fa = fl64 a"
  define fb where "fb = fl64 b"
  define z where "z = fb - fa"
  have t0: "0 < tau" "tau \<le> 1 / 1000000000000000"
    using tiny_facts(1) by (simp_all add: tau_def)
  have M0: "0 \<le> M" by (simp add: M_def)
  have MK: "M \<le> K * D" using K by (simp add: M_def)
  have K0: "0 \<le> K"
  proof (rule ccontr)
    assume "\<not> 0 \<le> K"
    then have "K * D < 0" using D(2) by (intro mult_neg_pos) simp_all
    then show False using MK M0 by linarith
  qed
  have Vb: "1 - 4 / 1000000000000000 \<le> V" "V \<le> 1 + 4 / 1000000000000000"
    using Vl Vu by (simp_all add: V_def)
  have W0: "0 \<le> W" using M0 s0 by (simp add: W_def)
  have "M * s \<le> K * D * s" using MK s0 by (rule mult_right_mono)
  then have "W \<le> K * V" by (simp add: W_def V_def mult.assoc)
  moreover have "K * V \<le> K * (1 + 4 / 1000000000000000)" using Vb(2) K0 by (rule mult_left_mono)
  ultimately have WK: "W \<le> K + 4 * K / 1000000000000000" by (simp add: algebra_simps)
  have "\<bar>dmin\<bar> \<le> M" by (simp add: M_def)
  then have "\<bar>dmin\<bar> * s \<le> M * s" using s0 by (rule mult_right_mono)
  then have aW: "\<bar>a\<bar> \<le> W" using s0 by (simp add: a_def W_def abs_mult)
  have "\<bar>x\<bar> \<le> M" unfolding M_def using x by (rule between_abs)
  then have "\<bar>x\<bar> * s \<le> M * s" using s0 by (rule mult_right_mono)
  then have bW: "\<bar>b\<bar> \<le> W" using s0 by (simp add: b_def W_def abs_mult)
  have ea: "\<bar>fa - a\<bar> \<le> W / 1000000000000000 + tau"
    using fl64_error_lit[of a] aW unfolding fa_def tau_def by linarith
  have eb: "\<bar>fb - b\<bar> \<le> W / 1000000000000000 + tau"
    using fl64_error_lit[of b] bW unfolding fb_def tau_def by linarith
  have "b - a = (x - dmin) * s" by (simp add: a_def b_def algebra_simps)
  moreover have "0 \<le> (x - dmin) * s" using x(1) s0 by simp
  moreover have "(x - dmin) * s \<le> D * s" using x(2) s0 unfolding D(1) by (intro mult_right_mono) simp_all
  ultimately have ba: "0 \<le> b - a" "b - a \<le> V" by (simp_all add: V_def)
  have zu: "z \<le> b - a + 2 * W / 1000000000000000 + 2 * tau"
    and zl: "b - a - 2 * W / 1000000000000000 - 2 * tau \<le> z"
    using ea eb unfolding z_def by linarith+
  have az: "\<bar>z\<bar> \<le> V + 2 * W / 1000000000000000 + 2 * tau"
    using zu zl ba W0 t0(1) by linarith
  have ey: "\<bar>y - z\<bar> \<le> \<bar>z\<bar> / 1000000000000000 + tau"
    using fl64_error_lit[of z] by (simp add: y_def z_def fa_def fb_def a_def b_def tau_def)
  define Kc where "Kc = K / 1000000000000000"
  define Wc where "Wc = W / 1000000000000000"
  define U where "U = V + 2 * Wc + 2 * tau"
  define Zc where "Zc = \<bar>z\<bar> / 1000000000000000"
  define Uc where "Uc = U / 1000000000000000"
  have Kc0: "0 \<le> Kc" using K0 by (simp add: Kc_def)
  have "W / 1000000000000000 \<le> (K + 4 * K / 1000000000000000) / 1000000000000000"
    using WK by (rule divide_right_mono) simp
  then have Wc1: "Wc \<le> Kc + 4 * Kc / 1000000000000000" by (simp add: Wc_def Kc_def add_divide_distrib)
  have zu': "z \<le> b - a + 2 * Wc + 2 * tau" and zl': "b - a - 2 * Wc - 2 * tau \<le> z"
    and az': "\<bar>z\<bar> \<le> U"
    using zu zl az by (simp_all add: Wc_def U_def)
  have U2: "U \<le> 1 + 6 / 1000000000000000 + 2 * Kc + 8 * Kc / 1000000000000000"
    using Vb(2) t0(2) Wc1 unfolding U_def by linarith
  have "U / 1000000000000000 \<le>
          (1 + 6 / 1000000000000000 + 2 * Kc + 8 * Kc / 1000000000000000) / 1000000000000000"
    using U2 by (rule divide_right_mono) simp
  then have Uc2: "Uc \<le> 1 / 1000000000000000 + 6 / 1000000000000000000000000000000
                    + 2 * Kc / 1000000000000000 + 8 * Kc / 1000000000000000000000000000000"
    by (simp add: Uc_def add_divide_distrib)
  have ZU: "Zc \<le> Uc" unfolding Zc_def Uc_def using az' by (rule divide_right_mono) simp
  have zU: "z \<le> U" using zu' ba(2) unfolding U_def by linarith
  have ey': "\<bar>y - z\<bar> \<le> Zc + tau" using ey by (simp only: Zc_def)
  have fin: "(3 * K + 9) / 10 ^ 15 = 3 * Kc + 9 / 1000000000000000"
    by (simp add: Kc_def add_divide_distrib)
  have "y \<le> U + Uc + tau" using ey' ZU zU by linarith
  then have "y \<le> 1 + (3 * Kc + 9 / 1000000000000000)" using U2 Uc2 t0(2) Kc0 by linarith
  then show "y \<le> 1 + (3 * K + 9) / 10 ^ 15" by (simp only: fin)
  show "1 - (3 * K + 9) / 10 ^ 15 \<le> y" if "x = dmax"
  proof -
    have "b - a = V" using that by (simp add: a_def b_def V_def D(1) algebra_simps)
    then have "1 - 4 / 1000000000000000 - 2 * Wc - 2 * tau \<le> z"
      using zl' Vb(1) by linarith
    then have z1: "1 - 6 / 1000000000000000 - 2 * Kc - 8 * Kc / 1000000000000000 \<le> z"
      using Wc1 t0(2) by linarith
    have "z - Uc - tau \<le> y" using ey' ZU by linarith
    then have "1 - (3 * Kc + 9 / 1000000000000000) \<le> y" using z1 Uc2 t0(2) Kc0 by linarith
    then show ?thesis by (simp only: fin)
  qed
qed

lemma f64_samples_Min: "f64_samples xs \<Longrightarrow> fl64 (Min (set xs)) = Min (set xs)"
proof -
  assume a: "f64_samples xs"
  then have "Min (set xs) \<in> set xs" by (intro Min_in) (simp_all add: f64_samples_def)
  then show ?thesis using a by (simp add: f64_samples_def list_all_iff is_f64_def)
qed

lemma scaled_wide:
  assumes r: "data_range' (partial_fit X) = Finite r" "10 * eps \<le> r"
    and K: "max \<bar>Min (set X)\<bar> \<bar>Max (set X)\<bar> \<le> K * (Max (set X) - Min (set X))"
    and x: "Min (set X) \<le> x" "x \<le> Max (set X)"
  shows "fl64 (fl64 (x * scale' (partial_fit X)) + min' (partial_fit X)) \<le> 1 + (3 * K + 9) / 10 ^ 15"
    and "x = Max (set X) \<Longrightarrow>
           1 - (3 * K + 9) / 10 ^ 15 \<le> fl64 (fl64 (x * scale' (partial_fit X)) + min' (partial_fit X))"
proof -
  define D where "D = Max (set X) - Min (set X)"
  define s where "s = scale' (partial_fit X)"
  have ov: "\<not> overflows D" and rD: "r = fl64 D"
    using r(1) unfolding partial_fit_range D_def by simp_all
  have w: "10 * eps \<le> fl64 D" using r(2) rD by simp
  have s: "s = fl64 (1 / fl64 D)" unfolding s_def D_def using r by (rule partial_fit_wide)
  note n = scale_near_inverse[OF ov w, folded s]
  have e: "fl64 (x * s) + min' (partial_fit X) = fl64 (x * s) - fl64 (Min (set X) * s)" for x
    by (simp add: min'_partial_fit s_def)
  have D: "D = Max (set X) - Min (set X)" by (rule D_def)
  have K': "max \<bar>Min (set X)\<bar> \<bar>Max (set X)\<bar> \<le> K * D" using K by (simp only: D_def)
  show "fl64 (fl64 (x * scale' (partial_fit X)) + min' (partial_fit X)) \<le> 1 + (3 * K + 9) / 10 ^ 15"
    unfolding s_def[symmetric] e by (rule scaled_error(1)[OF n(2,3,4) D n(1) K' x])
  show "1 - (3 * K + 9) / 10 ^ 15 \<le> fl64 (fl64 (x * scale' (partial_fit X)) + min' (partial_fit X))"
    if "x = Max (set X)"
    unfolding s_def[symmetric] e by (rule scaled_error(2)[OF n(2,3,4) D n(1) K' x that])
qed

lemma scaled_narrow:
  assumes X: "f64_samples X"
    and r: "data_range' (partial_fit X) = Finite r" "r < 10 * eps"
    and x: "is_f64 x" "x \<le> Max (set X)"
  shows "fl64 (fl64 (x * scale' (partial_fit X)) + min' (partial_fit X)) \<le> r"
    and "x = Max (set X) \<Longrightarrow> fl64 (fl64 (x * scale' (partial_fit X)) + min' (partial_fit X)) = r"
proof -
  have s: "scale' (partial_fit X) = 1" using r by (rule partial_fit_narrow)
  have rD: "r = fl64 (Max (set X) - Min (set X))" using r(1) unfolding partial_fit_range by simp
  have m: "min' (partial_fit X) = - Min (set X)"
    unfolding min'_partial_fit s using f64_samples_Min[OF X] by simp
  have e: "fl64 (fl64 (x * scale' (partial_fit X)) + min' (partial_fit X)) = fl64 (x - Min (set X))"
    unfolding s m using x(1) by (simp add: is_f64_def)
  show "fl64 (fl64 (x * scale' (partial_fit X)) + min' (partial_fit X)) \<le> r"
    unfolding e rD using x(2) by (intro fl64_mono) simp
  show "fl64 (fl64 (x * scale' (partial_fit X)) + min' (partial_fit X)) = r" if "x = Max (set X)"
    using e that rD by simp
qed

lemma scaled_infinite:
  assumes "data_range' (partial_fit X) = Infinity"
  shows "fl64 (fl64 (x * scale' (partial_fit X)) + min' (partial_fit X)) = 0"
  by (simp add: partial_fit_infinite[OF assms])

section \<open>The claims\<close>

subsection \<open>C1: a missing input file\<close>

text \<open>
  C1, as the script has it. When \<^verbatim>\<open>mutex_ns.csv\<close> does not exist, the run prints exactly
  the message naming \<^verbatim>\<open>../csvs/mutex_ns.csv\<close> and ends through \<^verbatim>\<open>exit()\<close>,
  whatever the state of \<^verbatim>\<open>sem_ns.csv\<close>; when \<^verbatim>\<open>mutex_ns.csv\<close> was read and
  \<^verbatim>\<open>sem_ns.csv\<close> does not exist, it prints exactly the message naming
  \<^verbatim>\<open>../csvs/sem_ns.csv\<close> and ends the same way. In both cases nothing else is
  printed, and no scaler, bin edge or figure exists: the run is the message and the exit.
\<close>

theorem missing_file_is_reported:
  "(fs mutex_csv = Absent \<longrightarrow>
      script fs = \<lparr>stdout = [not_found_message mutex_csv], ending = SystemExit None\<rparr>) \<and>
   (fs mutex_csv = Contents c \<and> fs sem_csv = Absent \<longrightarrow>
      script fs = \<lparr>stdout = [not_found_message sem_csv], ending = SystemExit None\<rparr>)"
  by (simp add: script_def read_csv_def raise_def)

text \<open>
  The two cases at concrete directories: only the semaphore file present, and only the
  mutex file present. The message is spelled out byte by byte.
\<close>

theorem missing_file_is_reported_witness:
  "script (fs_of Absent (Contents (Numeric [200, 210]))) =
     \<lparr>stdout = [''Error: No se encontr'' @ [CHR 0xC3, CHR 0xB3] @ '' el archivo ../csvs/mutex_ns.csv.''],
      ending = SystemExit None\<rparr> \<and>
   script (fs_of (Contents (Numeric [100, 150, 120])) Absent) =
     \<lparr>stdout = [''Error: No se encontr'' @ [CHR 0xC3, CHR 0xB3] @ '' el archivo ../csvs/sem_ns.csv.''],
      ending = SystemExit None\<rparr>"
  using missing_file_is_reported[of "fs_of Absent (Contents (Numeric [200, 210]))" "Numeric [100, 150, 120]"]
        missing_file_is_reported[of "fs_of (Contents (Numeric [100, 150, 120])) Absent" "Numeric [100, 150, 120]"]
  by (simp add: not_found_message_def o_acute_def mutex_csv_def sem_csv_def fs_of_def)

text \<open>
  The claim as stated fails when the first file exists but cannot be read: the
  semaphore file is missing, yet the first \<^verbatim>\<open>read_csv\<close> raises an exception that the
  handler does not catch, the second \<^verbatim>\<open>read_csv\<close> never runs and nothing is printed.
\<close>

theorem unreadable_mutex_hides_missing_sem:
  "fs_of (Unreadable ''UnicodeDecodeError'') Absent sem_csv = Absent \<and>
   script (fs_of (Unreadable ''UnicodeDecodeError'') Absent) =
     \<lparr>stdout = [], ending = Uncaught (ReadError ''UnicodeDecodeError'')\<rparr>"
  by (simp add: script_def read_csv_def raise_def)


subsection \<open>C2: the bin edges\<close>

text \<open>
  C2, as the script computes it in float64. For two non-empty sets of float64 samples
  whose range the 100 edges resolve (the difference of maximum and minimum does not
  overflow, and is zero or at least \<open>2\<^sup>-\<^sup>1\<^sup>0\<^sup>1\<^sup>5\<close>), the array of bin edges has
  exactly 100 elements, its first element is the minimum over both sets, its last element
  is the maximum over both sets, and it is non-decreasing. When the minimum is below the
  maximum the edges before the last are the linear ramp \<open>min + i * step\<close> with
  \<open>step = (max - min) / 99\<close>, each operation rounded, and the array is increasing
  provided the range \<open>max - min\<close> is not below \<open>10\<^sup>-\<^sup>1\<^sup>2\<close> times the larger of
  \<open>\<bar>min\<bar>\<close> and \<open>\<bar>max\<bar>\<close>; when all values are equal the array is 100 copies
  of that value.
\<close>

theorem bin_edges:
  assumes "f64_samples (df_mutex v)" "f64_samples (df_sem v)"
    and "ordinary_range (min_limit v) (max_limit v)"
  shows "length (bins v) = 100 \<and>
         hd (bins v) = Min (set (df_mutex v @ df_sem v)) \<and>
         last (bins v) = Max (set (df_mutex v @ df_sem v)) \<and>
         sorted (bins v) \<and>
         (min_limit v < max_limit v \<longrightarrow>
            (\<forall>i<99. bins v ! i =
               fl64 (fl64 (of_nat i * fl64 (fl64 (max_limit v - min_limit v) / 99)) + min_limit v))) \<and>
         (min_limit v < max_limit v \<and>
          max \<bar>min_limit v\<bar> \<bar>max_limit v\<bar> \<le> 10 ^ 12 * (max_limit v - min_limit v) \<longrightarrow>
            sorted_wrt (<) (bins v)) \<and>
         (min_limit v = max_limit v \<longrightarrow> bins v = replicate 100 (min_limit v))"
proof -
  have ne: "df_mutex v \<noteq> []" "df_sem v \<noteq> []" using assms by (simp_all add: f64_samples_def)
  have lo: "is_f64 (min_limit v)" and hi: "is_f64 (max_limit v)"
    using is_f64_min_limit[OF assms(1,2)] is_f64_max_limit[OF assms(1,2)] by simp_all
  have fx: "fl64 (min_limit v) = min_limit v" "fl64 (max_limit v) = max_limit v"
    using lo hi by (simp_all add: is_f64_def)
  have r: "max_limit v = min_limit v \<or> 2 powi (- 1015) \<le> max_limit v - min_limit v"
    using assms(3) by (simp add: ordinary_range_def)
  have 1: "length (bins v) = 100" by (simp add: bins_def)
  have 2: "hd (bins v) = Min (set (df_mutex v @ df_sem v))"
    unfolding min_limit_append[OF ne, symmetric] by (rule bins_span(1)[OF assms(1,2)])
  have 3: "last (bins v) = Max (set (df_mutex v @ df_sem v))"
    unfolding max_limit_append[OF ne, symmetric] by (rule bins_span(2)[OF assms(1,2)])
  have 4: "sorted (bins v)" using assms(1,2) r by (rule sorted_bins)
  have 5: "bins v ! i = fl64 (fl64 (of_nat i * fl64 (fl64 (max_limit v - min_limit v) / 99)) + min_limit v)"
    if "min_limit v < max_limit v" "i < 99" for i
  proof -
    have "2 powi (- 1015) \<le> fl64 (max_limit v) - fl64 (min_limit v)"
      using r that(1) unfolding fx by auto
    from linspace_nth_ramp[OF this that(2)] show ?thesis
      unfolding bins_def fx .
  qed
  have 6: "bins v = replicate 100 (min_limit v)" if "min_limit v = max_limit v"
    unfolding bins_def using that fx by (simp add: linspace_constant)
  have 7: "sorted_wrt (<) (bins v)"
    if "min_limit v < max_limit v"
       "max \<bar>min_limit v\<bar> \<bar>max_limit v\<bar> \<le> 10 ^ 12 * (max_limit v - min_limit v)"
  proof -
    have "2 powi (- 1015) \<le> max_limit v - min_limit v" using r that(1) by auto
    then show ?thesis unfolding bins_def using lo hi that(2) by (intro linspace_strict)
  qed
  show ?thesis using 1 2 3 4 5 6 7 by blast
qed

text \<open>
  The sample sets 10, 20, 30 and 5, 15, 25: 100 increasing edges from 5 to 30.
\<close>

theorem bin_edges_witness:
  "\<exists>v. normalise (Numeric [10, 20, 30]) (Numeric [5, 15, 25]) = Inr v \<and>
     f64_samples (df_mutex v) \<and> f64_samples (df_sem v) \<and>
     ordinary_range (min_limit v) (max_limit v) \<and>
     length (bins v) = 100 \<and> hd (bins v) = 5 \<and> last (bins v) = 30 \<and> sorted (bins v) \<and>
     sorted_wrt (<) (bins v)"
proof -
  obtain v where v: "normalise (Numeric [10, 20, 30]) (Numeric [5, 15, 25]) = Inr v"
    "df_mutex v = [10, 20, 30]" "df_sem v = [5, 15, 25]"
    using normalise_f64[of "[10, 20, 30]" "[5, 15, 25]"] by simp
  have "f64_samples (df_mutex v)" "f64_samples (df_sem v)" using v(2,3) by simp_all
  moreover have "min_limit v = 5" "max_limit v = 30"
    using v(2,3) by (simp_all add: min_limit_def max_limit_def)
  ultimately show ?thesis
    using bin_edges[of v] v by (intro exI[of _ v]) simp
qed

text \<open>
  The claim as stated fails where it says increasing: when every sample is 5 the
  100 edges are all 5. Nor do two distinct values suffice: with the samples 1 and
  \<open>1 + 2\<^sup>-\<^sup>5\<^sup>2\<close>, neighbours in float64, the first two edges are both 1. And with
  the samples 0 and 50 times the smallest subnormal number the step rounds up to one
  quantum, the edge before the last is 98 quanta, and the last edge, 50 quanta, is below
  it: the array is not even non-decreasing.
\<close>

theorem bin_edges_not_increasing:
  "map_sum id bins (normalise (Numeric [5]) (Numeric [5])) = Inr (replicate 100 5) \<and>
   \<not> sorted_wrt (<) (replicate 100 (5::rat)) \<and>
   (1::rat) < 4503599627370497 / 4503599627370496 \<and>
   map_sum id (take 2 \<circ> bins)
     (normalise (Numeric [1]) (Numeric [4503599627370497 / 4503599627370496])) = Inr [1, 1] \<and>
   map_sum id (\<lambda>v. (bins v ! 98, bins v ! 99))
     (normalise (Numeric [0]) (Numeric [50 * smallest_subnormal])) =
     Inr (98 * smallest_subnormal, 50 * smallest_subnormal) \<and>
   50 * smallest_subnormal < 98 * smallest_subnormal"
proof -
  obtain v where v: "normalise (Numeric [5]) (Numeric [5]) = Inr v"
    "df_mutex v = [5]" "df_sem v = [5]"
    using normalise_f64[of "[5]" "[5]"] by simp
  have "bins v = replicate 100 5"
    using v(2,3) by (intro bins_constant) simp_all
  then have a: "map_sum id bins (normalise (Numeric [5]) (Numeric [5])) = Inr (replicate 100 5)"
    using v(1) by simp
  have f: "f64_samples [1]" "f64_samples [4503599627370497 / 4503599627370496]"
    using fl64_next_after_one by (simp_all add: f64_samples_def)
  obtain w where w: "normalise (Numeric [1]) (Numeric [4503599627370497 / 4503599627370496]) = Inr w"
    "df_mutex w = [1]" "df_sem w = [4503599627370497 / 4503599627370496]"
    using normalise_f64[OF f] by simp
  have l: "min_limit w = 1" "max_limit w = 4503599627370497 / 4503599627370496"
    using w(2,3) by (simp_all add: min_limit_def max_limit_def)
  have fx: "fl64 (4503599627370497 / 4503599627370496) = 4503599627370497 / 4503599627370496"
    using fl64_next_after_one by (simp add: is_f64_def)
  have fs: "fl64 (5822835881852763 / 2596148429267413814265248164610048) =
            5822835881852763 / 2596148429267413814265248164610048"
    using fl64_idem[of "1 / 445856363109679104"] by (simp only: fl64_tiny_step)
  have b0: "bins w ! 0 = 1"
    unfolding bins_def l by (rule linspace_first) simp_all
  have "(1::nat) < 100 - 1" by simp
  then have b1: "bins w ! 1 = 1"
    unfolding bins_def l
    by (simp add: linspace_nth fx fl64_ulp fl64_tiny_step fs fl64_one_plus_tiny)
  have "take 2 (bins w) = [1, 1]" using take_two[of "bins w"] b0 b1 by (simp add: bins_def)
  then have b: "map_sum id (take 2 \<circ> bins)
     (normalise (Numeric [1]) (Numeric [4503599627370497 / 4503599627370496])) = Inr [1, 1]"
    using w(1) by simp
  obtain u where u: "normalise (Numeric [0]) (Numeric [50 * smallest_subnormal]) = Inr u"
    "bins u ! 98 = 98 * smallest_subnormal" "bins u ! 99 = 50 * smallest_subnormal"
    using underflow_edges by blast
  have c: "map_sum id (\<lambda>v. (bins v ! 98, bins v ! 99))
     (normalise (Numeric [0]) (Numeric [50 * smallest_subnormal])) =
     Inr (98 * smallest_subnormal, 50 * smallest_subnormal)"
    using u by simp
  show ?thesis using a b c by (simp add: not_increasing_replicate)
qed

subsection \<open>C3: the scaled arrays\<close>

text \<open>
  C3, as the scaler computes it in float64 without clipping. For two non-empty sets of
  float64 samples the scaler fitted on their concatenation maps the global minimum to
  exactly 0 and every element of both transformed arrays is at least 0. What the global
  maximum maps to, and the upper bound, depend on the fitted range \<^verbatim>\<open>data_range_\<close>:

  \<^item> when it is finite and at least \<^verbatim>\<open>10 * eps\<close>, and the larger of \<open>\<bar>min\<bar>\<close> and
    \<open>\<bar>max\<bar>\<close> is at most \<open>K\<close> times \<open>max - min\<close>, the global maximum maps to
    within \<open>(3 K + 9) 10\<^sup>-\<^sup>1\<^sup>5\<close> of 1 and no element exceeds 1 by more than that;
  \<^item> when it is below \<^verbatim>\<open>10 * eps\<close>, all values being equal included, the scale is 1:
    the global maximum maps to the range itself and no element exceeds it;
  \<^item> when \<open>max - min\<close> overflows, the scale is 0 and every element maps to 0.

  For mutex = 1, 2, 3 and sem = 2, 3, 4 the value 1 maps to 0, the value 4 maps to 1 and
  every scaled element lies in [0, 1].
\<close>

theorem scaler_anchors_minimum:
  "(f64_samples m \<and> f64_samples s \<longrightarrow>
      (\<exists>v. normalise (Numeric m) (Numeric s) = Inr v \<and>
         transform (the_scaler v) (Numeric m) = Inr (scaled_mutex v) \<and>
         transform (the_scaler v) (Numeric s) = Inr (scaled_sem v) \<and>
         transform (the_scaler v) (Numeric [min_limit v]) = Inr [0] \<and>
         (\<forall>y\<in>set (scaled_mutex v @ scaled_sem v). 0 \<le> y) \<and>
         (min_limit v = max_limit v \<longrightarrow> transform (the_scaler v) (Numeric [max_limit v]) = Inr [0]) \<and>
         (\<forall>r K. data_range' (the_scaler v) = Finite r \<and> 10 * eps \<le> r \<and>
                max \<bar>min_limit v\<bar> \<bar>max_limit v\<bar> \<le> K * (max_limit v - min_limit v) \<longrightarrow>
            (\<exists>y. transform (the_scaler v) (Numeric [max_limit v]) = Inr [y] \<and>
                 \<bar>y - 1\<bar> \<le> (3 * K + 9) / 10 ^ 15) \<and>
            (\<forall>y\<in>set (scaled_mutex v @ scaled_sem v). y \<le> 1 + (3 * K + 9) / 10 ^ 15)) \<and>
         (\<forall>r. data_range' (the_scaler v) = Finite r \<and> r < 10 * eps \<longrightarrow>
            transform (the_scaler v) (Numeric [max_limit v]) = Inr [r] \<and>
            (\<forall>y\<in>set (scaled_mutex v @ scaled_sem v). y \<le> r)) \<and>
         (data_range' (the_scaler v) = Infinity \<longrightarrow>
            transform (the_scaler v) (Numeric [max_limit v]) = Inr [0] \<and>
            (\<forall>y\<in>set (scaled_mutex v @ scaled_sem v). y = 0)))) \<and>
   (\<exists>v. normalise (Numeric [1, 2, 3]) (Numeric [2, 3, 4]) = Inr v \<and>
      min_limit v = 1 \<and> max_limit v = 4 \<and>
      transform (the_scaler v) (Numeric [1]) = Inr [0] \<and> transform (the_scaler v) (Numeric [4]) = Inr [1] \<and>
      scaled_mutex v = [0, 6004799503160661 / 18014398509481984, 3002399751580331 / 4503599627370496] \<and>
      scaled_sem v = [6004799503160661 / 18014398509481984, 3002399751580331 / 4503599627370496, 1] \<and>
      (\<forall>y\<in>set (scaled_mutex v @ scaled_sem v). 0 \<le> y \<and> y \<le> 1))"
proof (intro conjI impI)
  assume a: "f64_samples m \<and> f64_samples s"
  define X where "X = m @ s"
  define sc where "sc = partial_fit X"
  define f where "f = (\<lambda>x. fl64 (fl64 (x * scale' sc) + min' sc))"
  define v where "v = \<lparr>df_mutex = m, df_sem = s, the_scaler = sc,
         scaled_mutex = map f m, scaled_sem = map f s\<rparr>"
  have X: "f64_samples X" using a by (simp add: X_def f64_samples_append)
  have Xne: "X \<noteq> []" using X by (simp add: f64_samples_def)
  have n: "normalise (Numeric m) (Numeric s) = Inr v"
    using a normalise_f64[of m s] by (simp add: v_def sc_def f_def X_def)
  have fv: "f64_samples (df_mutex v)" "f64_samples (df_sem v)" using a by (simp_all add: v_def)
  have ne: "df_mutex v \<noteq> []" "df_sem v \<noteq> []" using a by (simp_all add: v_def f64_samples_def)
  have lo: "min_limit v = Min (set X)" using min_limit_append[OF ne] by (simp add: v_def X_def)
  have hi: "max_limit v = Max (set X)" using max_limit_append[OF ne] by (simp add: v_def X_def)
  have tsc: "the_scaler v = sc" by (simp add: v_def)
  have tm: "transform (the_scaler v) (Numeric m) = Inr (scaled_mutex v)"
    using a by (simp add: transform_f64 v_def f_def)
  have ts: "transform (the_scaler v) (Numeric s) = Inr (scaled_sem v)"
    using a by (simp add: transform_f64 v_def f_def)
  have t1: "transform (the_scaler v) (Numeric [x]) = Inr [f x]" if "is_f64 x" for x
  proof -
    have "f64_samples [x]" using that by (simp add: f64_samples_def)
    then show ?thesis unfolding tsc f_def by (simp add: transform_f64)
  qed
  have flo: "is_f64 (min_limit v)" and fhi: "is_f64 (max_limit v)"
    using is_f64_min_limit[OF fv] is_f64_max_limit[OF fv] by simp_all
  have "f (Min (set X)) = 0" unfolding f_def sc_def by (rule scaled_minimum)
  then have t0: "transform (the_scaler v) (Numeric [min_limit v]) = Inr [0]"
    using t1[OF flo] by (simp add: lo)
  have elem: "\<exists>x\<in>set X. y = f x" if "y \<in> set (scaled_mutex v @ scaled_sem v)" for y
    using that by (auto simp: v_def X_def)
  have rng: "Min (set X) \<le> x" "x \<le> Max (set X)" "is_f64 x" if "x \<in> set X" for x
    using that X by (simp_all add: f64_samples_def list_all_iff)
  have nonneg: "\<forall>y\<in>set (scaled_mutex v @ scaled_sem v). 0 \<le> y"
  proof
    fix y assume "y \<in> set (scaled_mutex v @ scaled_sem v)"
    then obtain x where x: "x \<in> set X" "y = f x" using elem by blast
    show "0 \<le> y" unfolding x(2) f_def sc_def using rng(1)[OF x(1)] by (rule scaled_nonneg)
  qed
  have eq: "transform (the_scaler v) (Numeric [max_limit v]) = Inr [0]" if "min_limit v = max_limit v"
    using t0 that by simp
  have wide: "(\<exists>y. transform (the_scaler v) (Numeric [max_limit v]) = Inr [y] \<and>
                 \<bar>y - 1\<bar> \<le> (3 * K + 9) / 10 ^ 15) \<and>
            (\<forall>y\<in>set (scaled_mutex v @ scaled_sem v). y \<le> 1 + (3 * K + 9) / 10 ^ 15)"
    if h: "data_range' (the_scaler v) = Finite r \<and> 10 * eps \<le> r \<and>
           max \<bar>min_limit v\<bar> \<bar>max_limit v\<bar> \<le> K * (max_limit v - min_limit v)" for r K
  proof -
    have r: "data_range' (partial_fit X) = Finite r" "10 * eps \<le> r"
      using h by (simp_all add: tsc sc_def)
    have K: "max \<bar>Min (set X)\<bar> \<bar>Max (set X)\<bar> \<le> K * (Max (set X) - Min (set X))"
      using h by (simp add: lo hi)
    have mm: "Min (set X) \<le> Max (set X)" using Xne by simp
    have up: "f (Max (set X)) \<le> 1 + (3 * K + 9) / 10 ^ 15"
      unfolding f_def sc_def by (rule scaled_wide(1)[OF r K mm]) simp
    have dn: "1 - (3 * K + 9) / 10 ^ 15 \<le> f (Max (set X))"
      unfolding f_def sc_def by (rule scaled_wide(2)[OF r K mm]) simp_all
    define bd where "bd = (3 * K + 9) / 10 ^ 15"
    have "\<bar>f (Max (set X)) - 1\<bar> \<le> bd" using up dn unfolding bd_def[symmetric] by linarith
    then have "\<bar>f (Max (set X)) - 1\<bar> \<le> (3 * K + 9) / 10 ^ 15" by (simp only: bd_def)
    then have 1: "\<exists>y. transform (the_scaler v) (Numeric [max_limit v]) = Inr [y] \<and>
                 \<bar>y - 1\<bar> \<le> (3 * K + 9) / 10 ^ 15"
      using t1[OF fhi] by (simp add: hi)
    have 2: "\<forall>y\<in>set (scaled_mutex v @ scaled_sem v). y \<le> 1 + (3 * K + 9) / 10 ^ 15"
    proof
      fix y assume "y \<in> set (scaled_mutex v @ scaled_sem v)"
      then obtain x where x: "x \<in> set X" "y = f x" using elem by blast
      show "y \<le> 1 + (3 * K + 9) / 10 ^ 15"
        unfolding x(2) f_def sc_def by (rule scaled_wide(1)[OF r K rng(1,2)[OF x(1)]])
    qed
    show ?thesis using 1 2 by (rule conjI)
  qed
  have narrow: "transform (the_scaler v) (Numeric [max_limit v]) = Inr [r] \<and>
            (\<forall>y\<in>set (scaled_mutex v @ scaled_sem v). y \<le> r)"
    if h: "data_range' (the_scaler v) = Finite r \<and> r < 10 * eps" for r
  proof -
    have r: "data_range' (partial_fit X) = Finite r" "r < 10 * eps"
      using h by (simp_all add: tsc sc_def)
    have fM: "is_f64 (Max (set X))" using fhi by (simp add: hi)
    have "f (Max (set X)) = r"
      unfolding f_def sc_def by (rule scaled_narrow(2)[OF X r fM]) simp_all
    then have 1: "transform (the_scaler v) (Numeric [max_limit v]) = Inr [r]"
      using t1[OF fhi] by (simp add: hi)
    have 2: "\<forall>y\<in>set (scaled_mutex v @ scaled_sem v). y \<le> r"
    proof
      fix y assume "y \<in> set (scaled_mutex v @ scaled_sem v)"
      then obtain x where x: "x \<in> set X" "y = f x" using elem by blast
      show "y \<le> r"
        unfolding x(2) f_def sc_def by (rule scaled_narrow(1)[OF X r rng(3,2)[OF x(1)]])
    qed
    show ?thesis using 1 2 by (rule conjI)
  qed
  have inf: "transform (the_scaler v) (Numeric [max_limit v]) = Inr [0] \<and>
            (\<forall>y\<in>set (scaled_mutex v @ scaled_sem v). y = 0)"
    if h: "data_range' (the_scaler v) = Infinity"
  proof -
    have r: "data_range' (partial_fit X) = Infinity" using h by (simp add: tsc sc_def)
    have z: "f x = 0" for x unfolding f_def sc_def by (rule scaled_infinite[OF r])
    have 1: "transform (the_scaler v) (Numeric [max_limit v]) = Inr [0]"
      using t1[OF fhi] by (simp add: z)
    have 2: "\<forall>y\<in>set (scaled_mutex v @ scaled_sem v). y = 0"
      using elem z by auto
    show ?thesis using 1 2 by (rule conjI)
  qed
  show "\<exists>v. normalise (Numeric m) (Numeric s) = Inr v \<and>
         transform (the_scaler v) (Numeric m) = Inr (scaled_mutex v) \<and>
         transform (the_scaler v) (Numeric s) = Inr (scaled_sem v) \<and>
         transform (the_scaler v) (Numeric [min_limit v]) = Inr [0] \<and>
         (\<forall>y\<in>set (scaled_mutex v @ scaled_sem v). 0 \<le> y) \<and>
         (min_limit v = max_limit v \<longrightarrow> transform (the_scaler v) (Numeric [max_limit v]) = Inr [0]) \<and>
         (\<forall>r K. data_range' (the_scaler v) = Finite r \<and> 10 * eps \<le> r \<and>
                max \<bar>min_limit v\<bar> \<bar>max_limit v\<bar> \<le> K * (max_limit v - min_limit v) \<longrightarrow>
            (\<exists>y. transform (the_scaler v) (Numeric [max_limit v]) = Inr [y] \<and>
                 \<bar>y - 1\<bar> \<le> (3 * K + 9) / 10 ^ 15) \<and>
            (\<forall>y\<in>set (scaled_mutex v @ scaled_sem v). y \<le> 1 + (3 * K + 9) / 10 ^ 15)) \<and>
         (\<forall>r. data_range' (the_scaler v) = Finite r \<and> r < 10 * eps \<longrightarrow>
            transform (the_scaler v) (Numeric [max_limit v]) = Inr [r] \<and>
            (\<forall>y\<in>set (scaled_mutex v @ scaled_sem v). y \<le> r)) \<and>
         (data_range' (the_scaler v) = Infinity \<longrightarrow>
            transform (the_scaler v) (Numeric [max_limit v]) = Inr [0] \<and>
            (\<forall>y\<in>set (scaled_mutex v @ scaled_sem v). y = 0))"
  proof (intro exI[of _ v] conjI allI impI)
    show "normalise (Numeric m) (Numeric s) = Inr v" by (rule n)
    show "transform (the_scaler v) (Numeric m) = Inr (scaled_mutex v)" by (rule tm)
    show "transform (the_scaler v) (Numeric s) = Inr (scaled_sem v)" by (rule ts)
    show "transform (the_scaler v) (Numeric [min_limit v]) = Inr [0]" by (rule t0)
    show "\<forall>y\<in>set (scaled_mutex v @ scaled_sem v). 0 \<le> y" by (rule nonneg)
    show "transform (the_scaler v) (Numeric [max_limit v]) = Inr [0]" if "min_limit v = max_limit v"
      using that by (rule eq)
  next
    fix r K
    assume h: "data_range' (the_scaler v) = Finite r \<and> 10 * eps \<le> r \<and>
           max \<bar>min_limit v\<bar> \<bar>max_limit v\<bar> \<le> K * (max_limit v - min_limit v)"
    show "\<exists>y. transform (the_scaler v) (Numeric [max_limit v]) = Inr [y] \<and>
                 \<bar>y - 1\<bar> \<le> (3 * K + 9) / 10 ^ 15"
      using wide[OF h] by (rule conjunct1)
    show "\<forall>y\<in>set (scaled_mutex v @ scaled_sem v). y \<le> 1 + (3 * K + 9) / 10 ^ 15"
      using wide[OF h] by (rule conjunct2)
  next
    fix r
    assume h: "data_range' (the_scaler v) = Finite r \<and> r < 10 * eps"
    show "transform (the_scaler v) (Numeric [max_limit v]) = Inr [r]"
      using narrow[OF h] by (rule conjunct1)
    show "\<forall>y\<in>set (scaled_mutex v @ scaled_sem v). y \<le> r"
      using narrow[OF h] by (rule conjunct2)
  next
    assume h: "data_range' (the_scaler v) = Infinity"
    show "transform (the_scaler v) (Numeric [max_limit v]) = Inr [0]"
      using inf[OF h] by (rule conjunct1)
    show "\<forall>y\<in>set (scaled_mutex v @ scaled_sem v). y = 0"
      using inf[OF h] by (rule conjunct2)
  qed
next
  define v where "v = \<lparr>df_mutex = [1, 2, 3], df_sem = [2, 3, 4],
          the_scaler = \<lparr>data_min' = 1, data_max' = 4, data_range' = Finite 3,
                         scale' = 6004799503160661 / 18014398509481984,
                         min' = - (6004799503160661 / 18014398509481984)\<rparr>,
          scaled_mutex = [0, 6004799503160661 / 18014398509481984, 3002399751580331 / 4503599627370496],
          scaled_sem = [6004799503160661 / 18014398509481984, 3002399751580331 / 4503599627370496, 1]\<rparr>"
  have n: "normalise (Numeric [1, 2, 3]) (Numeric [2, 3, 4]) = Inr v"
    unfolding v_def by (rule scaled_example)
  have l: "min_limit v = 1" "max_limit v = 4" by (simp_all add: v_def min_limit_def max_limit_def)
  have t1: "transform (the_scaler v) (Numeric [1]) = Inr [0]"
    unfolding transform_f64[OF f64_samples_example(8)] by (simp add: v_def third_fix)
  have f4: "f64_samples [4]" by (simp add: f64_samples_def is_f64_numeral)
  have t4: "transform (the_scaler v) (Numeric [4]) = Inr [1]"
    unfolding transform_f64[OF f4] by (simp add: v_def four_thirds_fix fl64_three_thirds)
  show "\<exists>v. normalise (Numeric [1, 2, 3]) (Numeric [2, 3, 4]) = Inr v \<and>
      min_limit v = 1 \<and> max_limit v = 4 \<and>
      transform (the_scaler v) (Numeric [1]) = Inr [0] \<and> transform (the_scaler v) (Numeric [4]) = Inr [1] \<and>
      scaled_mutex v = [0, 6004799503160661 / 18014398509481984, 3002399751580331 / 4503599627370496] \<and>
      scaled_sem v = [6004799503160661 / 18014398509481984, 3002399751580331 / 4503599627370496, 1] \<and>
      (\<forall>y\<in>set (scaled_mutex v @ scaled_sem v). 0 \<le> y \<and> y \<le> 1)"
    using n l t1 t4 by (intro exI[of _ v]) (simp add: v_def)
qed

text \<open>
  The general part at the sample sets 100, 150, 120 and 200, 210: the fitted range is
  110, the larger magnitude is 210, at most 2 times the range, so the maximum maps to
  within \<open>15 10\<^sup>-\<^sup>1\<^sup>5\<close> of 1.
\<close>

theorem scaler_anchors_minimum_witness:
  "f64_samples [100, 150, 120] \<and> f64_samples [200, 210] \<and>
   (\<exists>v. normalise (Numeric [100, 150, 120]) (Numeric [200, 210]) = Inr v \<and>
      data_range' (the_scaler v) = Finite 110 \<and> 10 * eps \<le> 110 \<and>
      max \<bar>min_limit v\<bar> \<bar>max_limit v\<bar> \<le> 2 * (max_limit v - min_limit v) \<and>
      transform (the_scaler v) (Numeric [100]) = Inr [0] \<and>
      (\<exists>y. transform (the_scaler v) (Numeric [210]) = Inr [y] \<and> \<bar>y - 1\<bar> \<le> 15 / 10 ^ 15) \<and>
      (\<forall>y\<in>set (scaled_mutex v @ scaled_sem v). 0 \<le> y \<and> y \<le> 1 + 15 / 10 ^ 15))"
proof -
  have h: "f64_samples [100, 150, 120] \<and> f64_samples [200, 210]" by simp
  from scaler_anchors_minimum[of "[100, 150, 120]" "[200, 210]"] h
  obtain v where v: "normalise (Numeric [100, 150, 120]) (Numeric [200, 210]) = Inr v"
    "transform (the_scaler v) (Numeric [min_limit v]) = Inr [0]"
    "\<forall>y\<in>set (scaled_mutex v @ scaled_sem v). 0 \<le> y"
    and w: "\<forall>r K. data_range' (the_scaler v) = Finite r \<and> 10 * eps \<le> r \<and>
                max \<bar>min_limit v\<bar> \<bar>max_limit v\<bar> \<le> K * (max_limit v - min_limit v) \<longrightarrow>
            (\<exists>y. transform (the_scaler v) (Numeric [max_limit v]) = Inr [y] \<and>
                 \<bar>y - 1\<bar> \<le> (3 * K + 9) / 10 ^ 15) \<and>
            (\<forall>y\<in>set (scaled_mutex v @ scaled_sem v). y \<le> 1 + (3 * K + 9) / 10 ^ 15)"
    by blast
  have d: "df_mutex v = [100, 150, 120]" "df_sem v = [200, 210]"
    "the_scaler v = partial_fit (map fl64 ([100, 150, 120] @ [200, 210]))"
    using normalise_numeric[OF v(1)] by simp_all
  have l: "min_limit v = 100" "max_limit v = 210"
    using d(1,2) by (simp_all add: min_limit_def max_limit_def)
  have r: "data_range' (the_scaler v) = Finite 110"
    unfolding d(3) by (simp add: partial_fit_def Let_def fl64_numeral not_overflows_numeral)
  have e: "10 * eps \<le> 110" by (simp add: eps_def)
  have k: "max \<bar>min_limit v\<bar> \<bar>max_limit v\<bar> \<le> 2 * (max_limit v - min_limit v)"
    unfolding l by simp
  from w r e k have
    "(\<exists>y. transform (the_scaler v) (Numeric [max_limit v]) = Inr [y] \<and>
                 \<bar>y - 1\<bar> \<le> (3 * 2 + 9) / 10 ^ 15) \<and>
            (\<forall>y\<in>set (scaled_mutex v @ scaled_sem v). y \<le> 1 + (3 * 2 + 9) / 10 ^ 15)"
    by blast
  then have u: "\<exists>y. transform (the_scaler v) (Numeric [210]) = Inr [y] \<and> \<bar>y - 1\<bar> \<le> 15 / 10 ^ 15"
    "\<forall>y\<in>set (scaled_mutex v @ scaled_sem v). y \<le> 1 + 15 / 10 ^ 15"
    unfolding l by simp_all
  show ?thesis
    using h v r e k u l by (intro conjI exI[of _ v]) simp_all
qed

text \<open>
  The claim as stated fails already on small integers: with mutex = 1 and sem = 6 the
  scale is the float64 nearest to 1/5, and the global maximum 6 maps to
  \<open>1 + 2\<^sup>-\<^sup>5\<^sup>2\<close>, above 1. It also fails for a range below \<^verbatim>\<open>10 * eps\<close>: with
  mutex = 0 and sem = \<open>2\<^sup>-\<^sup>5\<^sup>0\<close> the scale is 1 and the global maximum maps to itself,
  \<open>2\<^sup>-\<^sup>5\<^sup>0\<close>, not to 1.
\<close>

theorem scaled_maximum_above_one:
  "map_sum id scaled_sem (normalise (Numeric [1]) (Numeric [6])) =
     Inr [4503599627370497 / 4503599627370496] \<and>
   (1::rat) < 4503599627370497 / 4503599627370496 \<and>
   map_sum id scaled_sem (normalise (Numeric [0]) (Numeric [1 / 1125899906842624])) =
     Inr [1 / 1125899906842624] \<and>
   (1 / 1125899906842624 :: rat) < 1"
  by (simp add: scaled_1_6 scaled_tiny_range)

subsection \<open>C4: the scaled arrays are not used\<close>

text \<open>
  C4. Nothing after line 18 reads the two scaled arrays: the bin edges and the figure are
  the same whatever the scaled arrays hold, and in a run that shows the figure both
  histograms were given the raw values loaded from the two files.
\<close>

theorem scaled_arrays_unused:
  "plot (v\<lparr>scaled_mutex := a, scaled_sem := b\<rparr>) = plot v \<and>
   bins (v\<lparr>scaled_mutex := a, scaled_sem := b\<rparr>) = bins v \<and>
   (ending (script fs) = Shown v e fig \<longrightarrow>
      plot (v\<lparr>scaled_mutex := a, scaled_sem := b\<rparr>) = Inr fig \<and>
      map data (plots fig) = [df_mutex v, df_sem v] \<and>
      fs mutex_csv = Contents (Numeric (df_mutex v)) \<and>
      fs sem_csv = Contents (Numeric (df_sem v)))"
proof -
  have l: "min_limit (v\<lparr>scaled_mutex := a, scaled_sem := b\<rparr>) = min_limit v"
    "max_limit (v\<lparr>scaled_mutex := a, scaled_sem := b\<rparr>) = max_limit v"
    by (simp_all add: min_limit_def max_limit_def)
  have b: "bins (v\<lparr>scaled_mutex := a, scaled_sem := b\<rparr>) = bins v"
    by (simp add: bins_def l)
  have p: "plot (v\<lparr>scaled_mutex := a, scaled_sem := b\<rparr>) = plot v"
    by (simp add: plot_def b l cong: sum.case_cong if_cong)
  have "map data (plots fig) = [df_mutex v, df_sem v]" if "plot v = Inr fig"
    using that by (auto simp: plot_def hist_def split: sum.splits if_splits)
  then show ?thesis using b p script_shown[of fs v e fig] by auto
qed

text \<open>
  The end-to-end scenario: the figure it shows is the figure of the same variables with
  the scaled arrays replaced by other lists.
\<close>

theorem scaled_arrays_unused_witness:
  "\<exists>v e fig. ending (script (fs_of (Contents (Numeric [100, 150, 120])) (Contents (Numeric [200, 210])))) = Shown v e fig \<and>
     plot (v\<lparr>scaled_mutex := [], scaled_sem := [7, 7, 7]\<rparr>) = Inr fig \<and>
     map data (plots fig) = [[100, 150, 120], [200, 210]]"
proof -
  obtain v fig where r:
    "script (fs_of (Contents (Numeric [100, 150, 120])) (Contents (Numeric [200, 210]))) =
       \<lparr>stdout = [], ending = Shown v (bins v) fig\<rparr>"
    "df_mutex v = [100, 150, 120]" "df_sem v = [200, 210]"
    using script_numeric[of "[100, 150, 120]" "[200, 210]"
            "fs_of (Contents (Numeric [100, 150, 120])) (Contents (Numeric [200, 210]))"]
    by auto
  then have e: "ending (script (fs_of (Contents (Numeric [100, 150, 120])) (Contents (Numeric [200, 210])))) = Shown v (bins v) fig"
    by simp
  note t = scaled_arrays_unused[where v = v and a = "[]" and b = "[7, 7, 7]" and e = "bins v" and fig = fig
            and fs = "fs_of (Contents (Numeric [100, 150, 120])) (Contents (Numeric [200, 210]))"]
  have c: "plot (v\<lparr>scaled_mutex := [], scaled_sem := [7, 7, 7]\<rparr>) = Inr fig \<and>
        map data (plots fig) = [df_mutex v, df_sem v] \<and>
        fs_of (Contents (Numeric [100, 150, 120])) (Contents (Numeric [200, 210])) mutex_csv =
          Contents (Numeric (df_mutex v)) \<and>
        fs_of (Contents (Numeric [100, 150, 120])) (Contents (Numeric [200, 210])) sem_csv =
          Contents (Numeric (df_sem v))"
    by (rule mp[OF conjunct2[OF conjunct2[OF t]] e])
  have "plot (v\<lparr>scaled_mutex := [], scaled_sem := [7, 7, 7]\<rparr>) = Inr fig"
       "map data (plots fig) = [df_mutex v, df_sem v]"
    using c by (rule conjunct1, rule conjunct2[THEN conjunct1])
  then show ?thesis
    using e r(2,3) by (intro exI[of _ v] exI[of _ "bins v"] exI[of _ fig]) simp
qed

subsection \<open>C5: every other failure is uncaught\<close>

text \<open>
  C5. An exception other than FileNotFoundError raised by the first read, by the second
  read, or by the scaler (fit or transform: an empty table, a column that is not numeric)
  is not caught: the run prints nothing and ends with that exception. So does the
  TypeError of lines 21 to 23 when the scaler has accepted a column of text, and an
  exception raised while the histograms are drawn.
\<close>

theorem other_failures_propagate:
  "(read_csv fs mutex_csv = Inl e \<and> (\<forall>f. e \<noteq> FileNotFoundError f) \<longrightarrow>
      script fs = \<lparr>stdout = [], ending = Uncaught e\<rparr>) \<and>
   (read_csv fs mutex_csv = Inr dm \<and> read_csv fs sem_csv = Inl e \<and> (\<forall>f. e \<noteq> FileNotFoundError f) \<longrightarrow>
      script fs = \<lparr>stdout = [], ending = Uncaught e\<rparr>) \<and>
   (read_csv fs mutex_csv = Inr dm \<and> read_csv fs sem_csv = Inr ds \<and> normalise dm ds = Inl e \<longrightarrow>
      script fs = \<lparr>stdout = [], ending = Uncaught e\<rparr>) \<and>
   (read_csv fs mutex_csv = Inr dm \<and> read_csv fs sem_csv = Inr ds \<and> normalise dm ds = Inr v \<and>
    (is_text dm \<or> is_text ds) \<longrightarrow>
      script fs = \<lparr>stdout = [], ending = Uncaught TypeError\<rparr>) \<and>
   (read_csv fs mutex_csv = Inr dm \<and> read_csv fs sem_csv = Inr ds \<and> normalise dm ds = Inr v \<and>
    \<not> is_text dm \<and> \<not> is_text ds \<and> plot v = Inl e \<longrightarrow>
      script fs = \<lparr>stdout = [], ending = Uncaught e\<rparr>)"
  by (cases e) (simp_all add: script_def raise_def uncaught_def)

text \<open>
  Malformed rows in the first file, an undecodable second file, two empty tables, a
  column with a text that is not a number, a column with a text that \<^verbatim>\<open>float()\<close>
  reads, and two columns whose range overflows.
\<close>

theorem other_failures_propagate_witness:
  "script (fs_of (Unreadable ''ParserError'') Absent) =
     \<lparr>stdout = [], ending = Uncaught (ReadError ''ParserError'')\<rparr> \<and>
   script (fs_of (Contents (Numeric [100])) (Unreadable ''UnicodeDecodeError'')) =
     \<lparr>stdout = [], ending = Uncaught (ReadError ''UnicodeDecodeError'')\<rparr> \<and>
   script (fs_of (Contents (Numeric [])) (Contents (Numeric []))) =
     \<lparr>stdout = [], ending = Uncaught ValueError\<rparr> \<and>
   script (fs_of (Contents (Object [None])) (Contents (Numeric [100]))) =
     \<lparr>stdout = [], ending = Uncaught ValueError\<rparr> \<and>
   script (fs_of (Contents (Object [Some 1000])) (Contents (Numeric [100]))) =
     \<lparr>stdout = [], ending = Uncaught TypeError\<rparr> \<and>
   script (fs_of (Contents (Numeric [- (2 ^ 1023)])) (Contents (Numeric [2 ^ 1023]))) =
     \<lparr>stdout = [], ending = Uncaught ValueError\<rparr>"
proof -
  have 1: "read_csv (fs_of (Unreadable ''ParserError'') Absent) mutex_csv = Inl (ReadError ''ParserError'')"
    by (simp add: read_csv_def)
  have 2: "read_csv (fs_of (Contents (Numeric [100])) (Unreadable ''UnicodeDecodeError'')) mutex_csv = Inr (Numeric [100])"
    "read_csv (fs_of (Contents (Numeric [100])) (Unreadable ''UnicodeDecodeError'')) sem_csv = Inl (ReadError ''UnicodeDecodeError'')"
    by (simp_all add: read_csv_def)
  have 3: "read_csv (fs_of (Contents (Numeric [])) (Contents (Numeric []))) mutex_csv = Inr (Numeric [])"
    "read_csv (fs_of (Contents (Numeric [])) (Contents (Numeric []))) sem_csv = Inr (Numeric [])"
    "normalise (Numeric []) (Numeric []) = Inl ValueError"
    by (simp_all add: read_csv_def normalise_def concat_frames_def fit_def check_array_def)
  have 4: "read_csv (fs_of (Contents (Object [None])) (Contents (Numeric [100]))) mutex_csv = Inr (Object [None])"
    "read_csv (fs_of (Contents (Object [None])) (Contents (Numeric [100]))) sem_csv = Inr (Numeric [100])"
    "normalise (Object [None]) (Numeric [100]) = Inl ValueError"
    by (simp_all add: read_csv_def normalise_def concat_frames_def fit_def check_array_def)
  have 5: "read_csv (fs_of (Contents (Object [Some 1000])) (Contents (Numeric [100]))) mutex_csv = Inr (Object [Some 1000])"
    "read_csv (fs_of (Contents (Object [Some 1000])) (Contents (Numeric [100]))) sem_csv = Inr (Numeric [100])"
    by (simp_all add: read_csv_def)
  obtain w where w: "normalise (Object [Some 1000]) (Numeric [100]) = Inr w"
    by (simp add: normalise_def concat_frames_def fit_def transform_def check_array_def)
  have 6: "read_csv (fs_of (Contents (Numeric [- (2 ^ 1023)])) (Contents (Numeric [2 ^ 1023]))) mutex_csv =
             Inr (Numeric [- (2 ^ 1023)])"
    "read_csv (fs_of (Contents (Numeric [- (2 ^ 1023)])) (Contents (Numeric [2 ^ 1023]))) sem_csv =
             Inr (Numeric [2 ^ 1023])"
    by (simp_all add: read_csv_def)
  obtain v where v: "normalise (Numeric [- (2 ^ 1023)]) (Numeric [2 ^ 1023]) = Inr v"
    "plot v = Inl ValueError"
    using overflow_run by blast
  show ?thesis
    using other_failures_propagate[of "fs_of (Unreadable ''ParserError'') Absent" "ReadError ''ParserError''"]
          other_failures_propagate[of "fs_of (Contents (Numeric [100])) (Unreadable ''UnicodeDecodeError'')"
             "ReadError ''UnicodeDecodeError''" "Numeric [100]"]
          other_failures_propagate[of "fs_of (Contents (Numeric [])) (Contents (Numeric []))"
             ValueError "Numeric []" "Numeric []"]
          other_failures_propagate[of "fs_of (Contents (Object [None])) (Contents (Numeric [100]))"
             ValueError "Object [None]" "Numeric [100]"]
          other_failures_propagate[of "fs_of (Contents (Object [Some 1000])) (Contents (Numeric [100]))"
             ValueError "Object [Some 1000]" "Numeric [100]" w]
          other_failures_propagate[of "fs_of (Contents (Numeric [- (2 ^ 1023)])) (Contents (Numeric [2 ^ 1023]))"
             ValueError "Numeric [- (2 ^ 1023)]" "Numeric [2 ^ 1023]" v]
          1 2 3 4 5 6 w v
    by simp
qed

subsection \<open>C7: two well-formed numeric files\<close>

text \<open>
  C7, as the libraries compute it. When both files load as numeric columns the
  missing-file message is not printed. When moreover both columns are non-empty columns
  of float64 values whose range the 100 edges resolve (the difference of maximum and
  minimum does not overflow, and is zero or at least \<open>2\<^sup>-\<^sup>1\<^sup>0\<^sup>1\<^sup>5\<close>), the run
  completes: it shows a figure of two histograms, of the two raw columns, over one shared
  array of 100 bin edges, and the counts of each histogram add up to the number of its
  samples. For \<^verbatim>\<open>mutex_ns.csv\<close> = 100, 150, 120 and \<^verbatim>\<open>sem_ns.csv\<close> = 200, 210
  nothing is printed, the shared edges run from 100 to 210, and the histograms count 3
  and 2 samples.
\<close>

theorem well_formed_files_render:
  "(fs mutex_csv = Contents (Numeric m) \<and> fs sem_csv = Contents (Numeric s) \<longrightarrow>
      stdout (script fs) = []) \<and>
   (fs mutex_csv = Contents (Numeric m) \<and> fs sem_csv = Contents (Numeric s) \<and>
    f64_samples m \<and> f64_samples s \<and> ordinary_range (Min (set (m @ s))) (Max (set (m @ s))) \<longrightarrow>
      (\<exists>v fig. script fs = \<lparr>stdout = [], ending = Shown v (bins v) fig\<rparr> \<and>
         map data (plots fig) = [m, s] \<and> map edges (plots fig) = [bins v, bins v] \<and>
         length (bins v) = 100 \<and>
         map (sum_list \<circ> counts) (plots fig) = [length m, length s])) \<and>
   (\<exists>v fig. script (fs_of (Contents (Numeric [100, 150, 120])) (Contents (Numeric [200, 210]))) =
        \<lparr>stdout = [], ending = Shown v (bins v) fig\<rparr> \<and>
      map data (plots fig) = [[100, 150, 120], [200, 210]] \<and>
      map edges (plots fig) = [bins v, bins v] \<and>
      length (bins v) = 100 \<and> hd (bins v) = 100 \<and> last (bins v) = 210 \<and> sorted (bins v) \<and>
      map (sum_list \<circ> counts) (plots fig) = [3, 2])"
proof (intro conjI impI)
  assume "fs mutex_csv = Contents (Numeric m) \<and> fs sem_csv = Contents (Numeric s)"
  then show "stdout (script fs) = []"
    by (simp add: script_def read_csv_def uncaught_def split: sum.splits)
next
  assume a: "fs mutex_csv = Contents (Numeric m) \<and> fs sem_csv = Contents (Numeric s) \<and>
    f64_samples m \<and> f64_samples s \<and> ordinary_range (Min (set (m @ s))) (Max (set (m @ s)))"
  then obtain v fig where r: "script fs = \<lparr>stdout = [], ending = Shown v (bins v) fig\<rparr>"
    "df_mutex v = m" "df_sem v = s" "sorted (bins v)"
    "map data (plots fig) = [m, s]" "map edges (plots fig) = [bins v, bins v]"
    "map counts (plots fig) = [diff (search_sorted_inclusive m (bins v)),
                               diff (search_sorted_inclusive s (bins v))]"
    using script_numeric[of m s fs] by auto
  have f: "f64_samples (df_mutex v)" "f64_samples (df_sem v)" using a r(2,3) by simp_all
  have "map (sum_list \<circ> counts) (plots fig) = map sum_list (map counts (plots fig))" by simp
  also have "\<dots> = [length m, length s]"
    unfolding r(7) using counts_of_bins[OF f r(4)] by (simp add: r(2,3))
  finally have "map (sum_list \<circ> counts) (plots fig) = [length m, length s]" .
  then show "\<exists>v fig. script fs = \<lparr>stdout = [], ending = Shown v (bins v) fig\<rparr> \<and>
         map data (plots fig) = [m, s] \<and> map edges (plots fig) = [bins v, bins v] \<and>
         length (bins v) = 100 \<and>
         map (sum_list \<circ> counts) (plots fig) = [length m, length s]"
    using r by (intro exI[of _ v] exI[of _ fig]) (simp add: bins_def)
next
  obtain v fig where r:
    "script (fs_of (Contents (Numeric [100, 150, 120])) (Contents (Numeric [200, 210]))) =
       \<lparr>stdout = [], ending = Shown v (bins v) fig\<rparr>"
    "df_mutex v = [100, 150, 120]" "df_sem v = [200, 210]" "sorted (bins v)"
    "map data (plots fig) = [[100, 150, 120], [200, 210]]" "map edges (plots fig) = [bins v, bins v]"
    "map counts (plots fig) = [diff (search_sorted_inclusive [100, 150, 120] (bins v)),
                               diff (search_sorted_inclusive [200, 210] (bins v))]"
    using script_numeric[of "[100, 150, 120]" "[200, 210]"
            "fs_of (Contents (Numeric [100, 150, 120])) (Contents (Numeric [200, 210]))"]
    by auto
  have f: "f64_samples (df_mutex v)" "f64_samples (df_sem v)" using r(2,3) by simp_all
  have lo: "min_limit v = 100" and hi: "max_limit v = 210"
    using r(2,3) by (simp_all add: min_limit_def max_limit_def)
  have "hd (bins v) = 100" "last (bins v) = 210" using bins_span(1,2)[OF f] lo hi by simp_all
  moreover have "length (bins v) = 100" by (simp add: bins_def)
  moreover have "map (sum_list \<circ> counts) (plots fig) = map sum_list (map counts (plots fig))" by simp
  then have "map (sum_list \<circ> counts) (plots fig) = [3, 2]"
    unfolding r(7) using counts_of_bins[OF f r(4)] by (simp add: r(2,3))
  ultimately show "\<exists>v fig. script (fs_of (Contents (Numeric [100, 150, 120])) (Contents (Numeric [200, 210]))) =
        \<lparr>stdout = [], ending = Shown v (bins v) fig\<rparr> \<and>
      map data (plots fig) = [[100, 150, 120], [200, 210]] \<and>
      map edges (plots fig) = [bins v, bins v] \<and>
      length (bins v) = 100 \<and> hd (bins v) = 100 \<and> last (bins v) = 210 \<and> sorted (bins v) \<and>
      map (sum_list \<circ> counts) (plots fig) = [3, 2]"
    using r by (intro exI[of _ v] exI[of _ fig]) simp
qed

text \<open>The general part at the columns 10, 20, 30 and 5, 15, 25.\<close>

theorem well_formed_files_render_witness:
  "stdout (script (fs_of (Contents (Numeric [10, 20, 30])) (Contents (Numeric [5, 15, 25])))) = [] \<and>
   f64_samples [10, 20, 30] \<and> f64_samples [5, 15, 25] \<and> ordinary_range 5 30 \<and>
   (\<exists>v fig. script (fs_of (Contents (Numeric [10, 20, 30])) (Contents (Numeric [5, 15, 25]))) =
        \<lparr>stdout = [], ending = Shown v (bins v) fig\<rparr> \<and>
      map data (plots fig) = [[10, 20, 30], [5, 15, 25]] \<and> map edges (plots fig) = [bins v, bins v] \<and>
      length (bins v) = 100 \<and> map (sum_list \<circ> counts) (plots fig) = [3, 3])"
  using well_formed_files_render[of "fs_of (Contents (Numeric [10, 20, 30])) (Contents (Numeric [5, 15, 25]))"
          "[10, 20, 30]" "[5, 15, 25]"]
  by (simp add: numeral_3_eq_3)

text \<open>
  The claim as stated fails for two well-formed files whose values are far apart: with
  \<^verbatim>\<open>mutex_ns.csv\<close> = \<open>-2\<^sup>1\<^sup>0\<^sup>2\<^sup>3\<close> and \<^verbatim>\<open>sem_ns.csv\<close> = \<open>2\<^sup>1\<^sup>0\<^sup>2\<^sup>3\<close>, both
  float64 values, the range overflows, the bin edges are not finite, and the run does not
  complete: it ends with the ValueError of \<^verbatim>\<open>np.histogram\<close>, uncaught, exit status 1.
\<close>

theorem well_formed_files_overflow:
  "f64_samples [- (2 ^ 1023)] \<and> f64_samples [2 ^ 1023] \<and>
   script (fs_of (Contents (Numeric [- (2 ^ 1023)])) (Contents (Numeric [2 ^ 1023]))) =
     \<lparr>stdout = [], ending = Uncaught ValueError\<rparr> \<and>
   exit_status (ending (script (fs_of (Contents (Numeric [- (2 ^ 1023)])) (Contents (Numeric [2 ^ 1023]))))) = 1"
  using overflow_run f64_samples_huge by auto

subsection \<open>C8: the scaler and the bins share one range\<close>

text \<open>
  C8, as the libraries compute it. For two non-empty numeric columns the minimum and the
  maximum the scaler was fitted with are \<open>min_limit\<close> and \<open>max_limit\<close> converted
  to float64, and these are the first and the last bin edge whenever the bin edges are
  finite. When the columns hold float64 values the conversion changes nothing: the
  scaler's minimum and maximum are \<open>min_limit\<close> and \<open>max_limit\<close>.
\<close>

theorem scaler_range_is_bin_range:
  assumes "normalise (Numeric m) (Numeric s) = Inr v"
  shows "data_min' (the_scaler v) = fl64 (min_limit v) \<and>
         data_max' (the_scaler v) = fl64 (max_limit v) \<and>
         (\<not> linspace_overflows (min_limit v) (max_limit v) \<longrightarrow>
            hd (bins v) = data_min' (the_scaler v) \<and> last (bins v) = data_max' (the_scaler v)) \<and>
         (f64_samples m \<and> f64_samples s \<longrightarrow>
            data_min' (the_scaler v) = min_limit v \<and> data_max' (the_scaler v) = max_limit v)"
proof -
  note n = normalise_numeric[OF assms]
  have ne: "df_mutex v \<noteq> []" "df_sem v \<noteq> []" "m @ s \<noteq> []" using n by simp_all
  have "data_min' (the_scaler v) = Min (set (map fl64 (m @ s)))"
       "data_max' (the_scaler v) = Max (set (map fl64 (m @ s)))"
    unfolding n(5) by (simp_all add: partial_fit_def Let_def)
  then have d: "data_min' (the_scaler v) = fl64 (min_limit v)"
               "data_max' (the_scaler v) = fl64 (max_limit v)"
    unfolding Min_map_fl64[OF ne(3)] Max_map_fl64[OF ne(3)]
    using min_limit_append[OF ne(1,2)] max_limit_append[OF ne(1,2)] n(3,4) by simp_all
  have b: "hd (bins v) = data_min' (the_scaler v)" "last (bins v) = data_max' (the_scaler v)"
    unfolding d bins_def by (rule linspace_hd_last; simp)+
  have "data_min' (the_scaler v) = min_limit v \<and> data_max' (the_scaler v) = max_limit v"
    if "f64_samples m \<and> f64_samples s"
  proof -
    have "f64_samples (df_mutex v)" "f64_samples (df_sem v)" using that n(3,4) by simp_all
    then have "is_f64 (min_limit v)" "is_f64 (max_limit v)"
      by (rule is_f64_min_limit, rule is_f64_max_limit)
    then show ?thesis unfolding d by (simp add: is_f64_def)
  qed
  then show ?thesis using d b by simp
qed

text \<open>The sample sets 1, 2, 3 and 2, 3, 4: the scaler was fitted with 1 and 4.\<close>

theorem scaler_range_is_bin_range_witness:
  "\<exists>v. normalise (Numeric [1, 2, 3]) (Numeric [2, 3, 4]) = Inr v \<and>
     f64_samples [1, 2, 3] \<and> f64_samples [2, 3, 4] \<and>
     \<not> linspace_overflows (min_limit v) (max_limit v) \<and>
     data_min' (the_scaler v) = 1 \<and> min_limit v = 1 \<and> hd (bins v) = 1 \<and>
     data_max' (the_scaler v) = 4 \<and> max_limit v = 4 \<and> last (bins v) = 4"
proof -
  obtain v where v: "normalise (Numeric [1, 2, 3]) (Numeric [2, 3, 4]) = Inr v"
    "df_mutex v = [1, 2, 3]" "df_sem v = [2, 3, 4]"
    using normalise_f64[of "[1, 2, 3]" "[2, 3, 4]"] by simp
  have l: "min_limit v = 1" "max_limit v = 4"
    using v(2,3) by (simp_all add: min_limit_def max_limit_def)
  have "\<not> linspace_overflows (min_limit v) (max_limit v)"
    using ordinary_examples(3) unfolding l ordinary_range_def by simp
  then show ?thesis
    using scaler_range_is_bin_range[of "[1, 2, 3]" "[2, 3, 4]" v] v(1) l
    by (intro exI[of _ v]) simp
qed

text \<open>
  The claim as stated fails for a column of int64 values that float64 does not hold:
  with \<^verbatim>\<open>mutex_ns.csv\<close> = \<open>2\<^sup>5\<^sup>3 + 1\<close> and \<^verbatim>\<open>sem_ns.csv\<close> = 0 the scaler,
  which converts its input to float64, is fitted with the maximum \<open>2\<^sup>5\<^sup>3\<close>, whereas
  \<open>max_limit\<close> is \<open>2\<^sup>5\<^sup>3 + 1\<close>.
\<close>

theorem scaler_maximum_is_rounded:
  "map_sum id (\<lambda>v. (data_max' (the_scaler v), max_limit v))
     (normalise (Numeric [9007199254740993]) (Numeric [0])) =
   Inr (9007199254740992, 9007199254740993)"
  by (simp add: normalise_def concat_frames_def fit_def transform_def check_array_def
        partial_fit_def Let_def max_limit_def fl64_beyond_53)

subsection \<open>C9: the exit status of the missing-file path\<close>

text \<open>
  C9. On the missing-file path the run ends through \<^verbatim>\<open>exit()\<close> without an
  argument, so the exit status is 0, the same status as that of a run that showed the
  figure.
\<close>

theorem missing_file_exit_status:
  assumes "fs mutex_csv = Absent \<or> (\<exists>c. fs mutex_csv = Contents c) \<and> fs sem_csv = Absent"
    and "shown (ending (script fs'))"
  shows "ending (script fs) = SystemExit None \<and> exit_status (ending (script fs)) = 0 \<and>
         exit_status (ending (script fs')) = exit_status (ending (script fs))"
proof -
  have "ending (script fs) = SystemExit None"
    using assms(1) by (auto simp: script_def read_csv_def raise_def)
  moreover have "exit_status (ending (script fs')) = 0"
    using assms(2) by (cases "ending (script fs')") simp_all
  ultimately show ?thesis by simp
qed

text \<open>
  An empty directory against the two files of the end-to-end scenario.
\<close>

theorem missing_file_exit_status_witness:
  "ending (script (fs_of Absent Absent)) = SystemExit None \<and>
   exit_status (ending (script (fs_of Absent Absent))) = 0 \<and>
   exit_status (ending (script (fs_of (Contents (Numeric [100, 150, 120])) (Contents (Numeric [200, 210]))))) =
   exit_status (ending (script (fs_of Absent Absent)))"
proof -
  have "shown (ending (script (fs_of (Contents (Numeric [100, 150, 120])) (Contents (Numeric [200, 210])))))"
    using script_numeric[of "[100, 150, 120]" "[200, 210]"
            "fs_of (Contents (Numeric [100, 150, 120])) (Contents (Numeric [200, 210]))"]
    by auto
  then show ?thesis
    by (intro missing_file_exit_status) simp_all
qed

subsection \<open>C10: every sample equal\<close>

text \<open>
  C10, as the libraries behave. When every value of both non-empty sample sets is the
  same number, the bin edges are 100 copies of it, so they are not increasing; they
  are non-decreasing, which is what \<^verbatim>\<open>np.histogram\<close> checks, so the rendering does
  not fail: the run shows a figure in which each histogram has 98 empty bins and all
  its samples in the last bin.
\<close>

theorem constant_samples_degenerate_bins:
  assumes "f64_samples m" "f64_samples s" "\<forall>x\<in>set (m @ s). x = c"
    and "fs mutex_csv = Contents (Numeric m)" "fs sem_csv = Contents (Numeric s)"
  shows "\<exists>v fig. script fs = \<lparr>stdout = [], ending = Shown v (bins v) fig\<rparr> \<and>
           bins v = replicate 100 c \<and> \<not> sorted_wrt (<) (bins v) \<and> sorted (bins v) \<and>
           map counts (plots fig) = [replicate 98 0 @ [length m], replicate 98 0 @ [length s]]"
proof -
  have ne: "m @ s \<noteq> []" using assms(1) by (simp add: f64_samples_def)
  have "ordinary_range (Min (set (m @ s))) (Max (set (m @ s)))"
    unfolding Min_Max_constant[OF ne assms(3)] by (rule ordinary_range_refl)
  from script_numeric[OF assms(1,2) this assms(4,5)]
  obtain v fig where r: "script fs = \<lparr>stdout = [], ending = Shown v (bins v) fig\<rparr>"
    "plot v = Inr fig" "df_mutex v = m" "df_sem v = s" "sorted (bins v)"
    "map counts (plots fig) = [diff (search_sorted_inclusive m (bins v)),
                               diff (search_sorted_inclusive s (bins v))]"
    by auto
  have b: "bins v = replicate 100 c"
    using assms(1,2,3) r(3,4) by (intro bins_constant) simp_all
  have srt: "sorted (bins v)" by (rule r(5))
  have n: "(100::nat) = Suc (Suc 98)" by simp
  have f: "list_all is_f64 m" "list_all is_f64 s" using assms(1,2) by (simp_all add: f64_samples_def)
  have cm: "diff (search_sorted_inclusive m (replicate 100 c)) = replicate 98 0 @ [length m]"
    using assms(3) f(1) by (intro counts_constant[OF _ n]) simp_all
  have cs: "diff (search_sorted_inclusive s (replicate 100 c)) = replicate 98 0 @ [length s]"
    using assms(3) f(2) by (intro counts_constant[OF _ n]) simp_all
  have "map counts (plots fig) = [replicate 98 0 @ [length m], replicate 98 0 @ [length s]]"
    using r(6) b cm cs by simp
  moreover have "\<not> sorted_wrt (<) (bins v)" unfolding b by (rule not_increasing_replicate) simp
  ultimately show ?thesis using r(1) b srt by (intro exI[of _ v] exI[of _ fig]) simp
qed

text \<open>Two samples and one sample, all of them 5.\<close>

theorem constant_samples_degenerate_bins_witness:
  "\<exists>v fig. script (fs_of (Contents (Numeric [5, 5])) (Contents (Numeric [5]))) =
       \<lparr>stdout = [], ending = Shown v (bins v) fig\<rparr> \<and>
     bins v = replicate 100 5 \<and> \<not> sorted_wrt (<) (bins v) \<and> sorted (bins v) \<and>
     map counts (plots fig) = [replicate 98 0 @ [2], replicate 98 0 @ [1]]"
  using constant_samples_degenerate_bins[of "[5, 5]" "[5]" 5
          "fs_of (Contents (Numeric [5, 5])) (Contents (Numeric [5]))"]
  by (simp add: f64_samples_def is_f64_numeral numeral_2_eq_2)

text \<open>
  The claim as stated fails where it says that the rendering fails: with every sample
  equal to 5 the run reaches \<^verbatim>\<open>plt.show()\<close> and exits with status 0.
\<close>

theorem constant_samples_still_render:
  "shown (ending (script (fs_of (Contents (Numeric [5])) (Contents (Numeric [5]))))) \<and>
   exit_status (ending (script (fs_of (Contents (Numeric [5])) (Contents (Numeric [5]))))) = 0"
proof -
  obtain v fig where "script (fs_of (Contents (Numeric [5])) (Contents (Numeric [5]))) =
      \<lparr>stdout = [], ending = Shown v (bins v) fig\<rparr>"
    using script_numeric[of "[5]" "[5]" "fs_of (Contents (Numeric [5])) (Contents (Numeric [5]))"]
    by (auto simp: ordinary_range_refl)
  then show ?thesis by simp
qed

end
